theory Spec2Isabelle
  imports Complex_Main
begin

section \<open>Strings, runes and panics\<close>

text \<open>
  A Go string is a sequence of bytes; \<open>len\<close>, indexing and slicing count bytes.
  A run-time panic of the source is the \<open>Inl\<close> branch of a sum.
\<close>

datatype panic = SliceBounds | MakeSliceCap

type_synonym rune = nat

definition RuneError :: rune where
  "RuneError = 0xFFFD"

definition byte :: "char \<Rightarrow> nat" where
  "byte c = of_char c"

text \<open>
  The table \<open>first\<close> of package \<open>utf8\<close>: the width a leading byte announces
  (0 for a byte that cannot start a rune), and the range accepted for the second byte.
\<close>

definition first_size :: "nat \<Rightarrow> nat" where
  "first_size s0 =
     (if s0 < 0x80 then 1 else if s0 < 0xC2 then 0 else if s0 < 0xE0 then 2
      else if s0 < 0xF0 then 3 else if s0 < 0xF5 then 4 else 0)"

definition accept_lo :: "nat \<Rightarrow> nat" where
  "accept_lo s0 = (if s0 = 0xE0 then 0xA0 else if s0 = 0xF0 then 0x90 else 0x80)"

definition accept_hi :: "nat \<Rightarrow> nat" where
  "accept_hi s0 = (if s0 = 0xED then 0x9F else if s0 = 0xF4 then 0x8F else 0xBF)"

definition continuation :: "nat \<Rightarrow> bool" where
  "continuation b \<longleftrightarrow> 0x80 \<le> b \<and> b \<le> 0xBF"

text \<open>
  \<open>utf8.DecodeRuneInString\<close>: the first rune of a string and its width in bytes;
  an invalid or truncated encoding is \<open>RuneError\<close> of width 1.
\<close>

definition DecodeRuneInString :: "string \<Rightarrow> rune \<times> nat" where
  "DecodeRuneInString s =
    (if s = [] then (RuneError, 0)
     else
       let s0 = byte (s ! 0); sz = first_size s0 in
       if sz = 1 then (s0, 1)
       else if sz = 0 then (RuneError, 1)
       else if length s < sz then (RuneError, 1)
       else if byte (s ! 1) < accept_lo s0 \<or> accept_hi s0 < byte (s ! 1) then (RuneError, 1)
       else if sz = 2 then ((s0 mod 32) * 64 + byte (s ! 1) mod 64, 2)
       else if \<not> continuation (byte (s ! 2)) then (RuneError, 1)
       else if sz = 3 then
         ((s0 mod 16) * 4096 + (byte (s ! 1) mod 64) * 64 + byte (s ! 2) mod 64, 3)
       else if \<not> continuation (byte (s ! 3)) then (RuneError, 1)
       else ((s0 mod 8) * 262144 + (byte (s ! 1) mod 64) * 4096
              + (byte (s ! 2) mod 64) * 64 + byte (s ! 3) mod 64, 4))"

definition rune_at :: "string \<Rightarrow> nat \<Rightarrow> rune" where
  "rune_at line i = fst (DecodeRuneInString (drop i line))"

definition width_at :: "string \<Rightarrow> nat \<Rightarrow> nat" where
  "width_at line i = snd (DecodeRuneInString (drop i line))"

lemma width_pos: "s \<noteq> [] \<Longrightarrow> 1 \<le> snd (DecodeRuneInString s)"
  by (simp add: DecodeRuneInString_def Let_def)

lemma width_at_pos: "i < length line \<Longrightarrow> 1 \<le> width_at line i"
  using width_pos [of "drop i line"] by (simp add: width_at_def)

section \<open>The field extractor\<close>

text \<open>
  The loop \<open>for i, char := range line\<close> of \<open>findFieldIndices\<close>: \<open>i\<close> is the byte
  offset of the rune \<open>char\<close>; the loop leaves when the string is exhausted or, right
  after an append, when \<open>len(indices) >= maxFields\<close>.
\<close>

function range_fields :: "string \<Rightarrow> nat \<Rightarrow> int \<Rightarrow> nat list \<Rightarrow> bool \<Rightarrow> nat list" where
  "range_fields line i maxFields indices inField =
     (if length line \<le> i then indices
      else if rune_at line i \<noteq> 0x20 \<and> \<not> inField then
        (if maxFields \<le> int (length (indices @ [i])) then indices @ [i]
         else range_fields line (i + width_at line i) maxFields (indices @ [i]) True)
      else if rune_at line i = 0x20 then
        range_fields line (i + width_at line i) maxFields indices False
      else range_fields line (i + width_at line i) maxFields indices inField)"
  by pat_completeness auto
termination
proof (relation "measure (\<lambda>(line, i, m, ind, f). length line - i)", goal_cases)
  case 1
  show ?case by simp
next
  case (2 line i maxFields indices inField)
  then have "i < length line" by simp
  from width_at_pos [OF this] this show ?case by simp
next
  case (3 line i maxFields indices inField)
  then have "i < length line" by simp
  from width_at_pos [OF this] this show ?case by simp
next
  case (4 line i maxFields indices inField)
  then have "i < length line" by simp
  from width_at_pos [OF this] this show ?case by simp
qed

declare range_fields.simps [simp del]

text \<open>
  \<open>make([]int, 0, maxFields)\<close> panics (\<open>makeslice: cap out of range\<close>) when the
  capacity is negative or when its size in bytes, 8 for each \<open>int\<close>, is above the
  limit \<open>maxAlloc\<close> of the allocator, \<open>2^48\<close> on the 64-bit platforms. Within
  the limit the allocation is taken to succeed.
\<close>

definition maxAlloc :: int where
  "maxAlloc = 2 ^ 48"

definition makeslice_panics :: "int \<Rightarrow> bool" where
  "makeslice_panics cap \<longleftrightarrow> cap < 0 \<or> maxAlloc < 8 * cap"

text \<open>
  \<open>findFieldIndices\<close>: after \<open>make\<close> the loop runs from offset 0 with no index and
  \<open>inField = false\<close>.
\<close>

definition findFieldIndices :: "string \<Rightarrow> int \<Rightarrow> panic + nat list" where
  "findFieldIndices line maxFields =
     (if makeslice_panics maxFields then Inl MakeSliceCap
      else Inr (range_fields line 0 maxFields [] False))"


section \<open>Library functions used by the renderer\<close>

subsection \<open>Slicing\<close>

text \<open>The slice expression \<open>s[lo:hi]\<close> panics unless \<open>lo \<le> hi \<le> len(s)\<close>.\<close>

definition slice :: "string \<Rightarrow> nat \<Rightarrow> nat \<Rightarrow> panic + string" where
  "slice s lo hi =
     (if lo \<le> hi \<and> hi \<le> length s then Inr (take (hi - lo) (drop lo s)) else Inl SliceBounds)"

subsection \<open>White space\<close>

text \<open>\<open>unicode.IsSpace\<close>: the runes with the Unicode property White_Space.\<close>

definition IsSpace :: "rune \<Rightarrow> bool" where
  "IsSpace r \<longleftrightarrow>
     r = 0x09 \<or> r = 0x0A \<or> r = 0x0B \<or> r = 0x0C \<or> r = 0x0D \<or> r = 0x20 \<or> r = 0x85 \<or> r = 0xA0
     \<or> r = 0x1680 \<or> (0x2000 \<le> r \<and> r \<le> 0x200A) \<or> r = 0x2028 \<or> r = 0x2029
     \<or> r = 0x202F \<or> r = 0x205F \<or> r = 0x3000"

text \<open>
  \<open>utf8.DecodeLastRuneInString\<close>: the last rune of a string and its width. It walks
  back over at most three bytes to a byte that can start a rune and decodes forward
  from there; when that rune does not end at the end of the string the answer is
  \<open>RuneError\<close> of width 1.
\<close>

function back_scan :: "string \<Rightarrow> int \<Rightarrow> int \<Rightarrow> int" where
  "back_scan s start limit =
     (if limit \<le> start then
        (if \<not> continuation (byte (s ! nat start)) then start else back_scan s (start - 1) limit)
      else start)"
  by pat_completeness auto
termination
  by (relation "measure (\<lambda>(s, start, limit). nat (start - limit + 1))") auto

declare back_scan.simps [simp del]

definition DecodeLastRuneInString :: "string \<Rightarrow> rune \<times> nat" where
  "DecodeLastRuneInString s =
     (let n = int (length s) in
      if n = 0 then (RuneError, 0)
      else if byte (s ! nat (n - 1)) < 0x80 then (byte (s ! nat (n - 1)), 1)
      else
        let limit = max 0 (n - 4);
            start = max 0 (back_scan s (n - 2) limit);
            (r, size) = DecodeRuneInString (drop (nat start) s)
        in if start + int size \<noteq> n then (RuneError, 1) else (r, size))"

text \<open>
  \<open>strings.TrimSpace\<close> is \<open>TrimFunc(s, unicode.IsSpace)\<close> behind a fast path for
  ASCII, that is \<open>TrimRightFunc(TrimLeftFunc(s, f), f)\<close>. \<open>indexFunc\<close> and
  \<open>lastIndexFunc\<close> are called with \<open>truth = false\<close>: they look for the first and
  the last rune that is not white space, and answer \<open>-1\<close> when there is none.
\<close>

function indexFunc :: "string \<Rightarrow> nat \<Rightarrow> int" where
  "indexFunc s start =
     (if length s \<le> start then - 1
      else if \<not> IsSpace (rune_at s start) then int start
      else indexFunc s (start + width_at s start))"
  by pat_completeness auto
termination
proof (relation "measure (\<lambda>(s, start). length s - start)", goal_cases)
  case 1
  show ?case by simp
next
  case (2 s start)
  then have "start < length s" by simp
  from width_at_pos [OF this] this show ?case by simp
qed

declare indexFunc.simps [simp del]

definition TrimLeftFunc :: "string \<Rightarrow> string" where
  "TrimLeftFunc s = (let i = indexFunc s 0 in if i = - 1 then [] else drop (nat i) s)"

lemma back_scan_le: "back_scan s start limit \<le> start"
proof (induction s start limit rule: back_scan.induct)
  case (1 s start limit)
  show ?case
  proof (cases "limit \<le> start \<and> continuation (byte (s ! nat start))")
    case True
    with 1 have "back_scan s (start - 1) limit \<le> start - 1" by simp
    moreover from True have "back_scan s start limit = back_scan s (start - 1) limit"
      by (subst back_scan.simps) simp
    ultimately show ?thesis by simp
  next
    case False
    then have "back_scan s start limit = start"
      by (subst back_scan.simps) auto
    then show ?thesis by simp
  qed
qed

lemma last_width_pos: "s \<noteq> [] \<Longrightarrow> 1 \<le> snd (DecodeLastRuneInString s)"
proof -
  assume ne: "s \<noteq> []"
  define n where "n = int (length s)"
  define start where "start = max 0 (back_scan s (n - 2) (max 0 (n - 4)))"
  from ne have n: "1 \<le> n" by (cases s) (simp_all add: n_def)
  have "back_scan s (n - 2) (max 0 (n - 4)) \<le> n - 2" by (rule back_scan_le)
  with n have "0 \<le> start" "start < n" by (simp_all add: start_def)
  then have "nat start < length s" by (simp add: n_def)
  then have "drop (nat start) s \<noteq> []" by simp
  then have "1 \<le> snd (DecodeRuneInString (drop (nat start) s))" by (rule width_pos)
  then show ?thesis
    using n by (auto simp: DecodeLastRuneInString_def Let_def n_def [symmetric]
        start_def [symmetric] split: prod.splits)
qed

function lastIndexFunc :: "string \<Rightarrow> nat \<Rightarrow> int" where
  "lastIndexFunc s i =
     (if i = 0 then - 1
      else if \<not> IsSpace (fst (DecodeLastRuneInString (take i s)))
        then int i - int (snd (DecodeLastRuneInString (take i s)))
      else lastIndexFunc s (i - snd (DecodeLastRuneInString (take i s))))"
  by pat_completeness auto
termination
proof (relation "measure (\<lambda>(s, i). i)", goal_cases)
  case 1
  show ?case by simp
next
  case (2 s i)
  show ?case
  proof (cases "take i s = []")
    case True
    with 2 show ?thesis by (simp add: DecodeLastRuneInString_def RuneError_def IsSpace_def)
  next
    case False
    from last_width_pos [OF this] 2 show ?thesis by simp
  qed
qed

declare lastIndexFunc.simps [simp del]

definition TrimRightFunc :: "string \<Rightarrow> string" where
  "TrimRightFunc s =
     (let i = lastIndexFunc s (length s) in
      if 0 \<le> i \<and> 0x80 \<le> byte (s ! nat i) then take (nat i + width_at s (nat i)) s
      else take (nat (i + 1)) s)"

definition TrimSpace :: "string \<Rightarrow> string" where
  "TrimSpace s = TrimRightFunc (TrimLeftFunc s)"


text \<open>
  \<open>strings.Fields\<close> is \<open>FieldsFunc(s, unicode.IsSpace)\<close> behind a fast path for
  ASCII. The loop \<open>for end, rune := range s\<close> records the spans of the maximal runs of
  runes that are not white space; \<open>start\<close> is negative outside a run (\<open>^start\<close> is
  \<open>-start - 1\<close>).
\<close>

function fields_loop :: "string \<Rightarrow> nat \<Rightarrow> int \<Rightarrow> (nat \<times> nat) list \<Rightarrow> (nat \<times> nat) list" where
  "fields_loop s e start spans =
     (if length s \<le> e then
        (if 0 \<le> start then spans @ [(nat start, length s)] else spans)
      else if IsSpace (rune_at s e) then
        (if 0 \<le> start then fields_loop s (e + width_at s e) (- start - 1) (spans @ [(nat start, e)])
         else fields_loop s (e + width_at s e) start spans)
      else
        (if start < 0 then fields_loop s (e + width_at s e) (int e) spans
         else fields_loop s (e + width_at s e) start spans))"
  by pat_completeness auto
termination
proof (relation "measure (\<lambda>(s, e, start, spans). length s - e)", goal_cases)
  case 1
  show ?case by simp
next
  case (2 s e start spans)
  then have "e < length s" by simp
  from width_at_pos [OF this] this show ?case by simp
next
  case (3 s e start spans)
  then have "e < length s" by simp
  from width_at_pos [OF this] this show ?case by simp
next
  case (4 s e start spans)
  then have "e < length s" by simp
  from width_at_pos [OF this] this show ?case by simp
next
  case (5 s e start spans)
  then have "e < length s" by simp
  from width_at_pos [OF this] this show ?case by simp
qed

declare fields_loop.simps [simp del]

definition Fields :: "string \<Rightarrow> string list" where
  "Fields s = map (\<lambda>(a, b). take (b - a) (drop a s)) (fields_loop s 0 (- 1) [])"

text \<open>
  \<open>strings.IndexRune(s, ':')\<close>: for a rune below \<open>utf8.RuneSelf\<close> this is
  \<open>IndexByte\<close>, the offset of the first such byte; \<open>None\<close> stands for \<open>-1\<close>.
\<close>

fun IndexByte :: "string \<Rightarrow> char \<Rightarrow> nat option" where
  "IndexByte [] c = None"
| "IndexByte (x # xs) c = (if x = c then Some 0 else map_option Suc (IndexByte xs c))"

subsection \<open>Time\<close>

text \<open>
  A \<open>time.Time\<close> without monotonic reading is an instant, here the number of
  nanoseconds since the zero \<open>Time\<close> (January 1, year 1, 00:00:00 UTC). A
  \<open>time.Duration\<close> is a signed 64-bit count of nanoseconds.
\<close>

type_synonym Time = int
type_synonym Duration = int

definition minDuration :: Duration where "minDuration = - (2 ^ 63)"
definition maxDuration :: Duration where "maxDuration = 2 ^ 63 - 1"

text \<open>\<open>Time.Sub\<close>: the difference, saturated at the ends of \<open>Duration\<close>.\<close>

definition Sub :: "Time \<Rightarrow> Time \<Rightarrow> Duration" where
  "Sub t u = (if t - u < minDuration then minDuration
              else if maxDuration < t - u then maxDuration else t - u)"

text \<open>
  \<open>time.Parse\<close> for the one layout the program uses, \<open>"01-02 15:04:05.000"\<close>, chunk
  by chunk, in three consecutive blocks: month and day (\<open>Parse\<close>), hour, minute and
  second (\<open>parse_clock\<close>), the fraction, the end of the value and the check of the day
  against its month (\<open>parse_frac\<close>). \<open>getnum\<close> reads one or two digits (exactly two when \<open>fixed\<close>); \<open>skip\<close>
  matches the literal text between two chunks, a space of the layout standing for any
  number of spaces of the value.
\<close>

definition isDigit :: "string \<Rightarrow> nat \<Rightarrow> bool" where
  "isDigit s i \<longleftrightarrow> i < length s \<and> 48 \<le> byte (s ! i) \<and> byte (s ! i) \<le> 57"

definition digit :: "char \<Rightarrow> int" where
  "digit c = int (byte c) - 48"

definition getnum :: "string \<Rightarrow> bool \<Rightarrow> (int \<times> string) option" where
  "getnum s fixed =
     (if \<not> isDigit s 0 then None
      else if \<not> isDigit s 1 then
        (if fixed then None else Some (digit (s ! 0), drop 1 s))
      else Some (digit (s ! 0) * 10 + digit (s ! 1), drop 2 s))"

definition skip_lit :: "string \<Rightarrow> char \<Rightarrow> string option" where
  "skip_lit v c = (if v = [] \<or> v ! 0 \<noteq> c then None else Some (drop 1 v))"

definition skip_space :: "string \<Rightarrow> string option" where
  "skip_space v =
     (if v \<noteq> [] \<and> v ! 0 \<noteq> CHR '' '' then None
      else Some (dropWhile (\<lambda>c. c = CHR '' '') v))"

text \<open>
  \<open>atoi\<close> on the three bytes after the decimal mark: an optional sign, then digits
  only.
\<close>

definition atoi3 :: "string \<Rightarrow> int option" where
  "atoi3 s =
     (if s ! 0 = CHR ''-'' \<or> s ! 0 = CHR ''+'' then
        (if isDigit s 1 \<and> isDigit s 2 then
           (let x = digit (s ! 1) * 10 + digit (s ! 2)
            in Some (if s ! 0 = CHR ''-'' then - x else x))
         else None)
      else if isDigit s 0 \<and> isDigit s 1 \<and> isDigit s 2 then
        Some (digit (s ! 0) * 100 + digit (s ! 1) * 10 + digit (s ! 2))
      else None)"

text \<open>
  \<open>parseNanoseconds(value, 4)\<close> for the chunk \<open>.000\<close>: a period or a comma, then
  \<open>atoi\<close> of exactly three bytes, refused when negative, scaled to nanoseconds.
\<close>

definition parseNanoseconds :: "string \<Rightarrow> (int \<times> string) option" where
  "parseNanoseconds v =
     (if length v < 4 then None
      else if v ! 0 \<noteq> CHR ''.'' \<and> v ! 0 \<noteq> CHR '','' then None
      else case atoi3 (take 3 (drop 1 v)) of
             None \<Rightarrow> None
           | Some ns \<Rightarrow> if ns < 0 then None else Some (ns * 1000000, drop 4 v))"

text \<open>Year 0 is a leap year: the days of each month, and the days before it.\<close>

definition daysIn :: "int \<Rightarrow> int" where
  "daysIn m = (if m = 2 then 29 else if m = 4 \<or> m = 6 \<or> m = 9 \<or> m = 11 then 30 else 31)"

definition daysBefore :: "int \<Rightarrow> int" where
  "daysBefore m = [0, 31, 60, 91, 121, 152, 182, 213, 244, 274, 305, 335] ! nat (m - 1)"

text \<open>
  \<open>time.Date(0, month, day, hour, min, sec, nsec, time.UTC)\<close> for a valid date of
  year 0, which starts 366 days before the zero \<open>Time\<close>.
\<close>

definition Date0 :: "int \<Rightarrow> int \<Rightarrow> int \<Rightarrow> int \<Rightarrow> int \<Rightarrow> int \<Rightarrow> Time" where
  "Date0 month day hour minute sec nsec =
     ((((daysBefore month + (day - 1) - 366) * 24 + hour) * 60 + minute) * 60 + sec)
        * 1000000000 + nsec"

definition parse_frac :: "string \<Rightarrow> int \<Rightarrow> int \<Rightarrow> int \<Rightarrow> int \<Rightarrow> int \<Rightarrow> Time option" where
  "parse_frac v9 month day hour minute sec =
     (case parseNanoseconds v9 of None \<Rightarrow> None | Some (nsec, v10) \<Rightarrow>
      if v10 \<noteq> [] then None
      else if day < 1 \<or> daysIn month < day then None
      else Some (Date0 month day hour minute sec nsec))"

definition parse_clock :: "string \<Rightarrow> int \<Rightarrow> int \<Rightarrow> Time option" where
  "parse_clock v4 month day =
     (case getnum v4 False of None \<Rightarrow> None | Some (hour, v5) \<Rightarrow>
      if 24 \<le> hour then None else
      case skip_lit v5 (CHR '':'') of None \<Rightarrow> None | Some v6 \<Rightarrow>
      case getnum v6 True of None \<Rightarrow> None | Some (minute, v7) \<Rightarrow>
      if 60 \<le> minute then None else
      case skip_lit v7 (CHR '':'') of None \<Rightarrow> None | Some v8 \<Rightarrow>
      case getnum v8 True of None \<Rightarrow> None | Some (sec, v9) \<Rightarrow>
      if 60 \<le> sec then None else parse_frac v9 month day hour minute sec)"

definition Parse :: "string \<Rightarrow> Time option" where
  "Parse v0 =
     (case getnum v0 True of None \<Rightarrow> None | Some (month, v1) \<Rightarrow>
      if month \<le> 0 \<or> 12 < month then None else
      case skip_lit v1 (CHR ''-'') of None \<Rightarrow> None | Some v2 \<Rightarrow>
      case getnum v2 True of None \<Rightarrow> None | Some (day, v3) \<Rightarrow>
      case skip_space v3 of None \<Rightarrow> None | Some v4 \<Rightarrow> parse_clock v4 month day)"

text \<open>\<open>parseTimestamp\<close> of the source; \<open>None\<close> is the error return.\<close>

definition parseTimestamp :: "string \<Rightarrow> Time option" where
  "parseTimestamp line =
     (let parts = Fields line in
      if length parts < 2 then None
      else Parse (parts ! 0 @ '' '' @ parts ! 1))"


text \<open>
  \<open>Duration.String\<close>. The Go code writes digits from the end of a buffer towards its
  start; here \<open>buf\<close> is the text already written and every step puts bytes in front of
  it. \<open>fmtInt\<close> writes a decimal number. \<open>fmtFrac\<close> writes the last \<open>prec\<close> digits
  of \<open>v\<close> as a fraction without trailing zeros (and no decimal point when they are
  all zero), and returns \<open>v / 10^prec\<close> too.
\<close>

definition digit_char :: "int \<Rightarrow> char" where
  "digit_char d = char_of (48 + d)"

function fmtInt_loop :: "string \<Rightarrow> int \<Rightarrow> string" where
  "fmtInt_loop buf v = (if v \<le> 0 then buf else fmtInt_loop (digit_char (v mod 10) # buf) (v div 10))"
  by pat_completeness auto
termination
  by (relation "measure (\<lambda>(buf, v). nat v)") auto

declare fmtInt_loop.simps [simp del]

definition fmtInt :: "string \<Rightarrow> int \<Rightarrow> string" where
  "fmtInt buf v = (if v = 0 then CHR ''0'' # buf else fmtInt_loop buf v)"

fun fmtFrac_loop :: "nat \<Rightarrow> string \<Rightarrow> int \<Rightarrow> bool \<Rightarrow> string \<times> int \<times> bool" where
  "fmtFrac_loop 0 buf v print = (buf, v, print)"
| "fmtFrac_loop (Suc n) buf v print =
     (let d = v mod 10; print' = (print \<or> d \<noteq> 0)
      in fmtFrac_loop n (if print' then digit_char d # buf else buf) (v div 10) print')"

definition fmtFrac :: "string \<Rightarrow> int \<Rightarrow> nat \<Rightarrow> string \<times> int" where
  "fmtFrac buf v prec =
     (case fmtFrac_loop prec buf v False of
        (buf', v', print) \<Rightarrow> (if print then CHR ''.'' # buf' else buf', v'))"

definition Duration_String :: "Duration \<Rightarrow> string" where
  "Duration_String d =
     (let u = \<bar>d\<bar>;
          neg = (d < 0);
          w =
            (if u < 1000000000 then
               (if u = 0 then ''0s''
                else if u < 1000 then
                  (case fmtFrac ''ns'' u 0 of (b, u') \<Rightarrow> fmtInt b u')
                else if u < 1000000 then
                  (case fmtFrac [CHR 0xC2, CHR 0xB5, CHR ''s''] u 3 of (b, u') \<Rightarrow> fmtInt b u')
                else
                  (case fmtFrac ''ms'' u 6 of (b, u') \<Rightarrow> fmtInt b u'))
             else
               (case fmtFrac ''s'' u 9 of (b, u1) \<Rightarrow>
                  let b1 = fmtInt b (u1 mod 60); u2 = u1 div 60 in
                  if 0 < u2 then
                    (let b2 = fmtInt (CHR ''m'' # b1) (u2 mod 60); u3 = u2 div 60 in
                     if 0 < u3 then fmtInt (CHR ''h'' # b2) u3 else b2)
                  else b1))
      in if neg then CHR ''-'' # w else w)"

subsection \<open>Formatting\<close>

text \<open>\<open>utf8.RuneCountInString\<close>: the number of runes a \<open>range\<close> loop would visit.\<close>

function rune_count :: "string \<Rightarrow> nat \<Rightarrow> nat \<Rightarrow> nat" where
  "rune_count s i n = (if length s \<le> i then n else rune_count s (i + width_at s i) (n + 1))"
  by pat_completeness auto
termination
proof (relation "measure (\<lambda>(s, i, n). length s - i)", goal_cases)
  case 1
  show ?case by simp
next
  case (2 s i n)
  then have "i < length s" by simp
  from width_at_pos [OF this] this show ?case by simp
qed

declare rune_count.simps [simp del]

definition RuneCountInString :: "string \<Rightarrow> nat" where
  "RuneCountInString s = rune_count s 0 0"

text \<open>
  \<open>fmt.Sprintf("%-*v", wid, s)\<close> for a string \<open>s\<close>: \<open>s\<close> followed by spaces up to
  \<open>wid\<close> runes, and never cut. \<open>fmt\<close> refuses a width above one million: it writes
  \<open>%!(BADWIDTH)\<close> and then the operand without padding.
\<close>

definition Sprintf_pad :: "nat \<Rightarrow> string \<Rightarrow> string" where
  "Sprintf_pad wid s =
     (if 1000000 < wid then ''%!(BADWIDTH)'' @ s
      else s @ replicate (wid - RuneCountInString s) (CHR '' ''))"

text \<open>\<open>fmt.Println(line)\<close> writes the line and a newline.\<close>

definition Println :: "string \<Rightarrow> string" where
  "Println line = line @ [CHR 0x0A]"

section \<open>The renderer\<close>

record LogcatOptions =
  Filters :: "string list"
  Tag :: string
  Level :: string
  Device :: string
  MaxDelta :: Duration
  KeepGoing :: bool

text \<open>
  The colours of package \<open>github.com/fatih/color\<close>. \<open>LogLevelColors\<close> maps a level
  to the attributes of its colour function, \<open>TagColor\<close> is black on cyan. How a colour
  function marks up its text belongs to that package and to the terminal (it leaves the
  text alone when colours are off): it is the parameter \<open>paint\<close> of the renderer.
\<close>

datatype Attribute = FgBlack | FgRed | FgGreen | FgYellow | FgBlue | FgMagenta | FgCyan
  | FgWhite | BgCyan

definition LogLevelColors :: "string \<Rightarrow> Attribute list option" where
  "LogLevelColors = map_of
     [(''V'', [FgWhite]), (''D'', [FgBlue]), (''I'', [FgGreen]),
      (''W'', [FgYellow]), (''E'', [FgRed]), (''F'', [FgMagenta])]"

definition TagColor :: "Attribute list" where
  "TagColor = [FgBlack, BgCyan]"

text \<open>
  The running state \<open>(lastTag, lastTime, lastOther)\<close> is passed in and returned, as in
  the source. The result is the text written to standard output and the new state, or a
  panic. \<open>Duration.Seconds\<close> converts to floating point; the renderer only compares two
  such values, and the conversion is the parameter \<open>seconds\<close>.

  \<open>printColoredLog\<close> is one function in the source. Its body is given here in four
  consecutive blocks, each handing its local variables to the next: the field count
  (\<open>printColoredLog\<close>), the level (\<open>level_block\<close>), the tag (\<open>tag_block\<close>), and
  the timestamp, metadata and output (\<open>emit_block\<close>).
\<close>

type_synonym state = "string \<times> Time \<times> string"

definition emit_block ::
  "(Duration \<Rightarrow> rat) \<Rightarrow> (Attribute list \<Rightarrow> string \<Rightarrow> string) \<Rightarrow>
   string \<Rightarrow> string \<Rightarrow> Time \<Rightarrow> string \<Rightarrow> LogcatOptions \<Rightarrow>
   nat list \<Rightarrow> string \<Rightarrow> Attribute list \<Rightarrow> nat \<Rightarrow> string \<Rightarrow> string \<Rightarrow>
   panic + (string \<times> state)" where
  "emit_block seconds paint line lastTag lastTime lastOther opts
      parts level colorFunc colonIndex tag tagSpace =
    (case parseTimestamp line of
       None \<Rightarrow> Inr (Println line, (lastTag, lastTime, lastOther))
     | Some currentTime \<Rightarrow>
     case slice line 0 (parts ! 1) of Inl e \<Rightarrow> Inl e | Inr other1 \<Rightarrow>
     case slice line (parts ! 2) (parts ! 4) of Inl e \<Rightarrow> Inl e | Inr other2 \<Rightarrow>
     let other = other1 @ other2;
         delta = Sub currentTime lastTime;
         dedup = (lastTag = tag \<and> seconds delta < seconds (MaxDelta opts))
     in
     case (if dedup then Inr (Sprintf_pad (parts ! 4) (''+'' @ Duration_String delta))
           else slice line 0 (parts ! 4)) of Inl e \<Rightarrow> Inl e | Inr metadata \<Rightarrow>
     case slice line (colonIndex + 2) (length line) of Inl e \<Rightarrow> Inl e | Inr message \<Rightarrow>
     Inr (metadata @ paint colorFunc level @ '' '' @ paint TagColor tag @ tagSpace @ '' : ''
            @ paint colorFunc message @ [CHR 0x0A],
          (tag, if dedup then lastTime else currentTime, if dedup then lastOther else other)))"

definition tag_block ::
  "(Duration \<Rightarrow> rat) \<Rightarrow> (Attribute list \<Rightarrow> string \<Rightarrow> string) \<Rightarrow>
   string \<Rightarrow> string \<Rightarrow> Time \<Rightarrow> string \<Rightarrow> LogcatOptions \<Rightarrow>
   nat list \<Rightarrow> string \<Rightarrow> Attribute list \<Rightarrow> panic + (string \<times> state)" where
  "tag_block seconds paint line lastTag lastTime lastOther opts parts level colorFunc =
    (let tagIndex = parts ! 5 in
     case slice line tagIndex (length line) of Inl e \<Rightarrow> Inl e | Inr rest \<Rightarrow>
     case IndexByte rest (CHR '':'') of
       None \<Rightarrow> Inr (Println line, (lastTag, lastTime, lastOther))
     | Some k \<Rightarrow>
     let colonIndex = k + tagIndex in
     case slice line tagIndex colonIndex of Inl e \<Rightarrow> Inl e | Inr tagText \<Rightarrow>
     let tag = TrimSpace tagText in
     case slice line (tagIndex + length tag) colonIndex of Inl e \<Rightarrow> Inl e | Inr tagSpace \<Rightarrow>
     emit_block seconds paint line lastTag lastTime lastOther opts
       parts level colorFunc colonIndex tag tagSpace)"

definition level_block ::
  "(Duration \<Rightarrow> rat) \<Rightarrow> (Attribute list \<Rightarrow> string \<Rightarrow> string) \<Rightarrow>
   string \<Rightarrow> string \<Rightarrow> Time \<Rightarrow> string \<Rightarrow> LogcatOptions \<Rightarrow>
   nat list \<Rightarrow> panic + (string \<times> state)" where
  "level_block seconds paint line lastTag lastTime lastOther opts parts =
    (let levelIndex = parts ! 4 in
     case slice line levelIndex (levelIndex + 1) of Inl e \<Rightarrow> Inl e | Inr level \<Rightarrow>
     case LogLevelColors level of
       None \<Rightarrow> Inr (Println line, (lastTag, lastTime, lastOther))
     | Some colorFunc \<Rightarrow>
     tag_block seconds paint line lastTag lastTime lastOther opts parts level colorFunc)"

definition printColoredLog ::
  "(Duration \<Rightarrow> rat) \<Rightarrow> (Attribute list \<Rightarrow> string \<Rightarrow> string) \<Rightarrow>
   string \<Rightarrow> string \<Rightarrow> Time \<Rightarrow> string \<Rightarrow> LogcatOptions \<Rightarrow> panic + (string \<times> state)" where
  "printColoredLog seconds paint line lastTag lastTime lastOther opts =
    (case findFieldIndices line 6 of Inl e \<Rightarrow> Inl e | Inr parts \<Rightarrow>
     if length parts < 6 then Inr (Println line, (lastTag, lastTime, lastOther))
     else level_block seconds paint line lastTag lastTime lastOther opts parts)"

section \<open>Reference notions for the statements\<close>

text \<open>
  The field starts of a line in the words of the extractor's contract: the offsets of
  the bytes that are not a space and that open the line or follow a space.
\<close>

definition is_field_start :: "string \<Rightarrow> nat \<Rightarrow> bool" where
  "is_field_start line i \<longleftrightarrow>
     i < length line \<and> line ! i \<noteq> CHR '' '' \<and> (i = 0 \<or> line ! (i - 1) = CHR '' '')"

definition field_starts :: "string \<Rightarrow> nat list" where
  "field_starts line = filter (is_field_start line) [0..<length line]"

text \<open>
  The extractor's loop on bytes instead of runes, without the bound on the number of
  fields; the proofs go through it.
\<close>

fun scan :: "string \<Rightarrow> nat \<Rightarrow> bool \<Rightarrow> nat list" where
  "scan [] i inField = []"
| "scan (c # cs) i inField =
     (if c \<noteq> CHR '' '' \<and> \<not> inField then i # scan cs (Suc i) True
      else if c = CHR '' '' then scan cs (Suc i) False
      else scan cs (Suc i) inField)"

text \<open>
  An environment to run the renderer in: colours switched off, seconds as exact
  fractions, and the options \<open>parseArgs\<close> produces when no flag is given.
\<close>

definition plain :: "Attribute list \<Rightarrow> string \<Rightarrow> string" where
  "plain attrs s = s"

definition exact_seconds :: "Duration \<Rightarrow> rat" where
  "exact_seconds d = of_int d / 1000000000"

definition defaults :: LogcatOptions where
  "defaults = \<lparr>Filters = [], Tag = [], Level = [], Device = [],
                MaxDelta = 10000000000, KeepGoing = False\<rparr>"


text \<open>
  A timestamp of the log format as a \<open>Time\<close>: the layout has no year, so a parsed
  timestamp is an instant of year 0 (the 366 days before the zero \<open>Time\<close>), on a
  whole millisecond.
\<close>

definition stamp :: "Time \<Rightarrow> bool" where
  "stamp t \<longleftrightarrow> - 31622400000000000 \<le> t \<and> t < 0 \<and> t mod 1000000 = 0"

section \<open>Notions used in the proofs\<close>


definition low :: "string \<Rightarrow> bool" where
  "low s \<longleftrightarrow> (\<forall>c\<in>set s. byte c < 68)"

definition quiet :: "char \<Rightarrow> bool" where
  "quiet c \<longleftrightarrow> byte c < 68 \<or> 87 < byte c"

text \<open>
  The invariant of the loop of \<open>strings.Fields\<close> for its first two spans: they are
  not empty, a byte lies between them, and every byte before the end of the second one
  is in one of them or is no level letter.
\<close>

definition two_spans :: "string \<Rightarrow> nat \<times> nat \<Rightarrow> nat \<times> nat \<Rightarrow> bool" where
  "two_spans s x y \<longleftrightarrow>
     fst x < snd x \<and> snd x < fst y \<and> fst y < snd y \<and> snd y \<le> length s
     \<and> (\<forall>i<snd y. (fst x \<le> i \<and> i < snd x) \<or> (fst y \<le> i \<and> i < snd y) \<or> quiet (s ! i))"

definition fields_inv :: "string \<Rightarrow> nat \<Rightarrow> int \<Rightarrow> (nat \<times> nat) list \<Rightarrow> bool" where
  "fields_inv s e start spans \<longleftrightarrow>
     (case spans of
        [] \<Rightarrow> (if start < 0 then (\<forall>i<e. quiet (s ! i))
               else nat start < e \<and> (\<forall>i<nat start. quiet (s ! i)))
      | [x] \<Rightarrow> fst x < snd x \<and> (\<forall>i<fst x. quiet (s ! i))
               \<and> (if start < 0 then snd x < e \<and> (\<forall>i. snd x \<le> i \<and> i < e \<longrightarrow> quiet (s ! i))
                   else snd x < nat start \<and> nat start < e
                        \<and> (\<forall>i. snd x \<le> i \<and> i < nat start \<longrightarrow> quiet (s ! i)))
      | x # y # _ \<Rightarrow> two_spans s x y)"

definition fields_ok :: "string \<Rightarrow> (nat \<times> nat) list \<Rightarrow> bool" where
  "fields_ok s spans \<longleftrightarrow> (case spans of x # y # _ \<Rightarrow> two_spans s x y | _ \<Rightarrow> True)"


lemma byte_space: "byte c = 32 \<longleftrightarrow> c = CHR '' ''"
proof -
  have "byte (CHR '' '') = 32" by (simp add: byte_def)
  moreover have "inj (of_char :: char \<Rightarrow> nat)" by (rule inj_of_char)
  ultimately show ?thesis unfolding byte_def by (metis injD)
qed

lemma first_size_cases: "first_size b \<in> {0, 1, 2, 3, 4}"
  by (simp add: first_size_def)

lemma first_size_1: "first_size b = 1 \<longleftrightarrow> b < 128"
  by (simp add: first_size_def)

lemma first_size_ge2: "2 \<le> first_size b \<Longrightarrow> 194 \<le> b \<and> b < 245"
  by (simp add: first_size_def split: if_splits)

lemma accept_cont: "accept_lo b \<le> x \<Longrightarrow> x \<le> accept_hi b \<Longrightarrow> continuation x"
  by (simp add: accept_lo_def accept_hi_def continuation_def split: if_splits)

lemma decode_width_le: "snd (DecodeRuneInString s) \<le> length s"
proof (cases "s = []")
  case True then show ?thesis by (simp add: DecodeRuneInString_def)
next
  case False
  then have l: "1 \<le> length s" by (cases s) simp_all
  consider "first_size (byte (s ! 0)) = 0" | "first_size (byte (s ! 0)) = 1"
    | "first_size (byte (s ! 0)) = 2" | "first_size (byte (s ! 0)) = 3"
    | "first_size (byte (s ! 0)) = 4"
    using first_size_cases [of "byte (s ! 0)"] by auto
  then show ?thesis
  proof cases
    case 1 with False l show ?thesis by (simp add: DecodeRuneInString_def Let_def)
  next
    case 2 with False l show ?thesis by (simp add: DecodeRuneInString_def Let_def)
  next
    case 3 with False l show ?thesis by (simp add: DecodeRuneInString_def Let_def)
  next
    case 4 with False l show ?thesis by (simp add: DecodeRuneInString_def Let_def)
  next
    case 5 with False l show ?thesis by (simp add: DecodeRuneInString_def Let_def)
  qed
qed


lemma m64: "128 \<le> x \<Longrightarrow> x < 192 \<Longrightarrow> x mod 64 = x - (128::nat)"
  by (simp add: le_mod_geq)
lemma m32: "192 \<le> x \<Longrightarrow> x < 224 \<Longrightarrow> x mod 32 = x - (192::nat)"
  by (simp add: le_mod_geq)
lemma m16: "224 \<le> x \<Longrightarrow> x < 240 \<Longrightarrow> x mod 16 = x - (224::nat)"
  by (simp add: le_mod_geq)
lemma m8: "240 \<le> x \<Longrightarrow> x < 248 \<Longrightarrow> x mod 8 = x - (240::nat)"
  by (simp add: le_mod_geq)

lemma decode_not_space:
  assumes "s \<noteq> []" "128 \<le> byte (s ! 0)"
  shows "fst (DecodeRuneInString s) \<noteq> 32"
proof -
  let ?b = "byte (s ! 0)"
  consider "first_size ?b = 0" | "first_size ?b = 1"
    | "first_size ?b = 2" | "first_size ?b = 3" | "first_size ?b = 4"
    using first_size_cases [of ?b] by auto
  then show ?thesis
  proof cases
    case 1 with assms show ?thesis by (simp add: DecodeRuneInString_def Let_def RuneError_def)
  next
    case 2
    then have "?b < 128" by (simp add: first_size_def split: if_splits)
    with assms show ?thesis by simp
  next
    case 3
    then have "194 \<le> ?b" "?b < 224" by (simp_all add: first_size_def split: if_splits)
    then have "2 \<le> ?b mod 32" by (simp add: m32)
    then have "(?b mod 32) * 64 + byte (s ! 1) mod 64 \<noteq> 32" by simp
    with 3 assms show ?thesis by (simp add: DecodeRuneInString_def Let_def RuneError_def)
  next
    case 4
    then have b: "224 \<le> ?b" "?b < 240" by (simp_all add: first_size_def split: if_splits)
    have "accept_lo ?b \<le> byte (s ! 1) \<Longrightarrow> byte (s ! 1) \<le> accept_hi ?b \<Longrightarrow>
      (?b mod 16) * 4096 + (byte (s ! 1) mod 64) * 64 + byte (s ! 2) mod 64 \<noteq> 32"
    proof -
      assume a: "accept_lo ?b \<le> byte (s ! 1)" "byte (s ! 1) \<le> accept_hi ?b"
      show ?thesis
      proof (cases "?b = 224")
        case True
        with a have "160 \<le> byte (s ! 1)" "byte (s ! 1) < 192"
          by (simp_all add: accept_lo_def accept_hi_def)
        then have "32 \<le> byte (s ! 1) mod 64" by (simp add: m64)
        then show ?thesis by simp
      next
        case False
        with b have "1 \<le> ?b mod 16" by (simp add: m16)
        then show ?thesis by simp
      qed
    qed
    with 4 assms show ?thesis
      by (simp add: DecodeRuneInString_def Let_def RuneError_def)
  next
    case 5
    then have b: "240 \<le> ?b" "?b < 245" by (simp_all add: first_size_def split: if_splits)
    have "accept_lo ?b \<le> byte (s ! 1) \<Longrightarrow> byte (s ! 1) \<le> accept_hi ?b \<Longrightarrow>
      (?b mod 8) * 262144 + (byte (s ! 1) mod 64) * 4096
              + (byte (s ! 2) mod 64) * 64 + byte (s ! 3) mod 64 \<noteq> 32"
    proof -
      assume a: "accept_lo ?b \<le> byte (s ! 1)" "byte (s ! 1) \<le> accept_hi ?b"
      show ?thesis
      proof (cases "?b = 240")
        case True
        with a have "144 \<le> byte (s ! 1)" "byte (s ! 1) < 192"
          by (simp_all add: accept_lo_def accept_hi_def)
        then have "16 \<le> byte (s ! 1) mod 64" by (simp add: m64)
        then show ?thesis by simp
      next
        case False
        with b have "1 \<le> ?b mod 8" by (simp add: m8)
        then show ?thesis by simp
      qed
    qed
    with 5 assms show ?thesis
      by (simp add: DecodeRuneInString_def Let_def RuneError_def)
  qed
qed

lemma decode_ascii: "s \<noteq> [] \<Longrightarrow> byte (s ! 0) < 128 \<Longrightarrow> DecodeRuneInString s = (byte (s ! 0), 1)"
  by (simp add: DecodeRuneInString_def Let_def first_size_def)

lemma decode_space: "s \<noteq> [] \<Longrightarrow> fst (DecodeRuneInString s) = 32 \<longleftrightarrow> s ! 0 = CHR '' ''"
proof (cases "byte (s ! 0) < 128")
  case True
  assume "s \<noteq> []"
  with True show ?thesis
    by (simp add: decode_ascii byte_space)
next
  case False
  assume ne: "s \<noteq> []"
  from False have "s ! 0 \<noteq> CHR '' ''" using byte_space [of "s ! 0"] by auto
  with decode_not_space [OF ne] False show ?thesis by simp
qed

lemma decode_interior:
  assumes "0 < k" "k < snd (DecodeRuneInString s)"
  shows "continuation (byte (s ! k))"
proof -
  let ?b = "byte (s ! 0)"
  from assms have ne: "s \<noteq> []" by (auto simp: DecodeRuneInString_def)
  consider "first_size ?b = 0" | "first_size ?b = 1"
    | "first_size ?b = 2" | "first_size ?b = 3" | "first_size ?b = 4"
    using first_size_cases [of ?b] by auto
  then show ?thesis
  proof cases
    case 1 with assms ne show ?thesis by (simp add: DecodeRuneInString_def Let_def)
  next
    case 2 with assms ne show ?thesis by (simp add: DecodeRuneInString_def Let_def)
  next
    case 3
    with assms ne have "k = 1 \<and> accept_lo ?b \<le> byte (s ! 1) \<and> byte (s ! 1) \<le> accept_hi ?b"
      by (simp add: DecodeRuneInString_def Let_def split: if_splits)
    then show ?thesis using accept_cont by blast
  next
    case 4
    with assms ne have "(k = 1 \<or> k = 2) \<and> accept_lo ?b \<le> byte (s ! 1) \<and> byte (s ! 1) \<le> accept_hi ?b
        \<and> continuation (byte (s ! 2))"
      by (simp add: DecodeRuneInString_def Let_def split: if_splits) arith
    then show ?thesis using accept_cont by blast
  next
    case 5
    with assms ne have "(k = 1 \<or> k = 2 \<or> k = 3) \<and> accept_lo ?b \<le> byte (s ! 1) \<and> byte (s ! 1) \<le> accept_hi ?b
        \<and> continuation (byte (s ! 2)) \<and> continuation (byte (s ! 3))"
      by (simp add: DecodeRuneInString_def Let_def split: if_splits) arith
    then show ?thesis using accept_cont by blast
  qed
qed

lemma scan_skip:
  "n \<le> length s \<Longrightarrow> (\<forall>k<n. s ! k \<noteq> CHR '' '') \<Longrightarrow> scan s i True = scan (drop n s) (i + n) True"
proof (induction n arbitrary: s i)
  case 0
  then show ?case by simp
next
  case (Suc n)
  then obtain c cs where s: "s = c # cs" by (cases s) auto
  from Suc.prems s have c: "c \<noteq> CHR '' ''" by auto
  from Suc.prems s have "n \<le> length cs" "\<forall>k<n. cs ! k \<noteq> CHR '' ''" by auto
  from Suc.IH [OF this] have "scan cs (Suc i) True = scan (drop n cs) (Suc i + n) True" .
  with s c show ?case by simp
qed

lemma scan_filter:
  "i \<le> length line \<Longrightarrow> (inField \<longleftrightarrow> 0 < i \<and> line ! (i - 1) \<noteq> CHR '' '') \<Longrightarrow>
   scan (drop i line) i inField = filter (is_field_start line) [i..<length line]"
proof (induction "length line - i" arbitrary: i inField)
  case 0
  then show ?case by simp
next
  case (Suc n)
  then have lt: "i < length line" by simp
  then have d: "drop i line = line ! i # drop (Suc i) line" by (simp add: Cons_nth_drop_Suc)
  have u: "[i..<length line] = i # [Suc i..<length line]" using lt by (simp add: upt_conv_Cons)
  let ?f' = "line ! i \<noteq> CHR '' ''"
  have n: "n = length line - Suc i" using Suc.hyps(2) by simp
  have le: "Suc i \<le> length line" using lt by simp
  have fl: "?f' \<longleftrightarrow> 0 < Suc i \<and> line ! (Suc i - 1) \<noteq> CHR '' ''" by simp
  have IH: "scan (drop (Suc i) line) (Suc i) ?f' = filter (is_field_start line) [Suc i..<length line]"
    by (rule Suc.hyps(1) [OF n le fl])
  show ?case
  proof (cases "line ! i = CHR '' ''")
    case True
    then have "\<not> is_field_start line i" by (simp add: is_field_start_def)
    with True IH show ?thesis by (simp add: d u)
  next
    case False
    show ?thesis
    proof (cases inField)
      case True
      with Suc.prems have "\<not> is_field_start line i" by (auto simp: is_field_start_def)
      with True False IH show ?thesis by (simp add: d u)
    next
      case nf: False
      with Suc.prems False lt have "is_field_start line i" by (auto simp: is_field_start_def)
      with nf False IH show ?thesis by (simp add: d u)
    qed
  qed
qed

lemma scan_field_starts: "scan line 0 False = field_starts line"
  using scan_filter [of 0 line False] by (simp add: field_starts_def)

lemma rune_at_space: "i < length line \<Longrightarrow> rune_at line i = 32 \<longleftrightarrow> line ! i = CHR '' ''"
  using decode_space [of "drop i line"] by (simp add: rune_at_def)

lemma width_at_le: "i \<le> length line \<Longrightarrow> i + width_at line i \<le> length line"
  using decode_width_le [of "drop i line"] by (simp add: width_at_def)

lemma width_at_space: "i < length line \<Longrightarrow> line ! i = CHR '' '' \<Longrightarrow> width_at line i = 1"
  using decode_ascii [of "drop i line"] by (simp add: width_at_def byte_def)

lemma width_at_interior:
  assumes "0 < k" "k < width_at line i"
  shows "line ! (i + k) \<noteq> CHR '' ''"
proof -
  from assms have k: "k < snd (DecodeRuneInString (drop i line))" by (simp add: width_at_def)
  from decode_width_le [of "drop i line"] k have "i + k < length line" by (cases "i \<le> length line") simp_all
  moreover from decode_interior [OF assms(1) k] have "continuation (byte (drop i line ! k))" .
  ultimately have "continuation (byte (line ! (i + k)))" by simp
  then show ?thesis by (auto simp: continuation_def byte_def)
qed

lemma scan_rune:
  assumes i: "i < length line"
  shows "scan (drop (Suc i) line) (Suc i) True
           = scan (drop (i + width_at line i) line) (i + width_at line i) True"
proof -
  let ?w = "width_at line i"
  from width_at_pos [OF i] obtain n where n: "?w = Suc n" by (cases ?w) auto
  from width_at_le [of i line] i n have le: "n \<le> length (drop (Suc i) line)" by simp
  have ns: "\<forall>k<n. drop (Suc i) line ! k \<noteq> CHR '' ''"
  proof (intro allI impI)
    fix k assume "k < n"
    with n have "0 < Suc k" "Suc k < ?w" by simp_all
    from width_at_interior [OF this] have "line ! (i + Suc k) \<noteq> CHR '' ''" .
    moreover from \<open>k < n\<close> le have "Suc i + k < length line" by simp
    ultimately show "drop (Suc i) line ! k \<noteq> CHR '' ''" by simp
  qed
  from scan_skip [OF le ns, of "Suc i"] n show ?thesis by (simp add: add.commute)
qed

lemma range_fields_scan:
  "i \<le> length line \<Longrightarrow>
   range_fields line i m acc f = acc @ take (max 1 (nat m - length acc)) (scan (drop i line) i f)"
proof (induction line i m acc f rule: range_fields.induct)
  case (1 line i m acc f)
  show ?case
  proof (cases "length line \<le> i")
    case True
    then show ?thesis by (subst range_fields.simps) simp
  next
    case False
    then have lt: "i < length line" by simp
    have d: "drop i line = line ! i # drop (Suc i) line" using lt by (simp add: Cons_nth_drop_Suc)
    have le': "i + width_at line i \<le> length line" using lt by (simp add: width_at_le)
    note sp = rune_at_space [OF lt]
    show ?thesis
    proof (cases "line ! i = CHR '' ''")
      case True
      then have w: "width_at line i = 1" using lt by (rule width_at_space [rotated])
      from True sp have r: "rune_at line i = 32" by simp
      have "range_fields line i m acc f = range_fields line (i + width_at line i) m acc False"
        using False r by (subst range_fields.simps) simp
      also have "\<dots> = acc @ take (max 1 (nat m - length acc))
            (scan (drop (i + width_at line i) line) (i + width_at line i) False)"
        using "1.IH"(2) False r le' by simp
      also have "scan (drop (i + width_at line i) line) (i + width_at line i) False
            = scan (drop i line) i f"
        using True w by (simp add: d)
      finally show ?thesis .
    next
      case ns: False
      with sp have r: "rune_at line i \<noteq> 32" by simp
      show ?thesis
      proof (cases f)
        case True
        have "range_fields line i m acc f = range_fields line (i + width_at line i) m acc f"
          using False r True by (subst range_fields.simps) simp
        also have "\<dots> = acc @ take (max 1 (nat m - length acc))
              (scan (drop (i + width_at line i) line) (i + width_at line i) f)"
          using "1.IH"(3) False r True le' by simp
        also have "scan (drop (i + width_at line i) line) (i + width_at line i) f
              = scan (drop i line) i f"
          using True ns scan_rune [OF lt] by (simp add: d)
        finally show ?thesis .
      next
        case nf: False
        have sc: "scan (drop i line) i f
            = i # scan (drop (i + width_at line i) line) (i + width_at line i) True"
          using nf ns scan_rune [OF lt] by (simp add: d)
        show ?thesis
        proof (cases "m \<le> int (length (acc @ [i]))")
          case True
          then have "max 1 (nat m - length acc) = 1" by auto
          moreover have "range_fields line i m acc f = acc @ [i]"
            using False r nf True by (subst range_fields.simps) simp
          ultimately show ?thesis by (simp add: sc)
        next
          case nm: False
          then obtain j where j: "nat m - length acc = Suc (Suc j)"
            by (cases "nat m - length acc"; cases "nat m - length acc - 1") auto
          then have j': "nat m - length (acc @ [i]) = Suc j" by simp
          have "range_fields line i m acc f
                = range_fields line (i + width_at line i) m (acc @ [i]) True"
            using False r nf nm by (subst range_fields.simps) simp
          also have "\<dots> = (acc @ [i]) @ take (max 1 (nat m - length (acc @ [i])))
                (scan (drop (i + width_at line i) line) (i + width_at line i) True)"
            using "1.IH"(1) False r nf nm le' by simp
          finally show ?thesis by (simp only: j j' sc) simp
        qed
      qed
    qed
  qed
qed

lemma findFieldIndices_eq:
  "\<not> makeslice_panics m \<Longrightarrow>
   findFieldIndices line m = Inr (take (max 1 (nat m)) (field_starts line))"
  using range_fields_scan [of 0 line m "[]" False]
  by (simp add: findFieldIndices_def scan_field_starts)

lemma makeslice_small [simp]: "\<not> makeslice_panics 6" "\<not> makeslice_panics 0"
  by (simp_all add: makeslice_panics_def maxAlloc_def)

lemma field_starts_sorted: "sorted_wrt (<) (field_starts line)"
  unfolding field_starts_def by (rule sorted_wrt_filter) (simp add: sorted_wrt_upt)

lemma field_starts_set: "p \<in> set (field_starts line) \<Longrightarrow> is_field_start line p"
  by (simp add: field_starts_def)

lemma parts_facts:
  assumes "findFieldIndices line 6 = Inr parts" "\<not> length parts < 6"
  shows "parts = take 6 (field_starts line)" "length parts = 6"
    "\<And>a b. a < b \<Longrightarrow> b < 6 \<Longrightarrow> parts ! a < parts ! b"
    "\<And>a. a < 6 \<Longrightarrow> parts ! a < length line"
    "\<And>a. a < 6 \<Longrightarrow> line ! (parts ! a) \<noteq> CHR '' ''"
proof -
  from assms(1) findFieldIndices_eq [of 6 line]
  show p: "parts = take 6 (field_starts line)" by simp
  with assms(2) show l: "length parts = 6" by simp
  have s: "sorted_wrt (<) parts" unfolding p by (rule sorted_wrt_take) (rule field_starts_sorted)
  show "parts ! a < parts ! b" if "a < b" "b < 6" for a b
    using sorted_wrt_nth_less [OF s, of a b] that l by simp
  have m: "is_field_start line (parts ! a)" if "a < 6" for a
  proof -
    from that l have "parts ! a \<in> set parts" by simp
    then have "parts ! a \<in> set (field_starts line)" unfolding p by (rule in_set_takeD)
    then show ?thesis by (rule field_starts_set)
  qed
  show "parts ! a < length line" if "a < 6" for a using m [OF that] by (simp add: is_field_start_def)
  show "line ! (parts ! a) \<noteq> CHR '' ''" if "a < 6" for a
    using m [OF that] by (simp add: is_field_start_def)
qed

lemma IndexByte_Some:
  "IndexByte s c = Some k \<Longrightarrow> k < length s \<and> s ! k = c \<and> (\<forall>j<k. s ! j \<noteq> c)"
proof (induction s arbitrary: k)
  case Nil
  then show ?case by simp
next
  case (Cons x xs)
  show ?case
  proof (cases "x = c")
    case True
    with Cons.prems show ?thesis by simp
  next
    case False
    with Cons.prems obtain k' where k: "IndexByte xs c = Some k'" "k = Suc k'" by auto
    from Cons.IH [OF k(1)] False k(2) show ?thesis by (auto simp: nth_Cons')
  qed
qed


lemma TrimRightFunc_take: "TrimRightFunc s = take (length (TrimRightFunc s)) s"
proof -
  have "\<exists>n. TrimRightFunc s = take n s" by (auto simp: TrimRightFunc_def Let_def)
  then obtain n where n: "TrimRightFunc s = take n s" ..
  show ?thesis by (subst (1 2) n) (simp add: min_def)
qed

lemma TrimRightFunc_length: "length (TrimRightFunc s) \<le> length s"
  by (subst TrimRightFunc_take) simp

lemma TrimLeftFunc_length: "length (TrimLeftFunc s) \<le> length s"
  by (simp add: TrimLeftFunc_def Let_def)

lemma TrimSpace_length: "length (TrimSpace s) \<le> length s"
  unfolding TrimSpace_def
  using TrimRightFunc_length [of "TrimLeftFunc s"] TrimLeftFunc_length [of s] by simp

lemma TrimLeftFunc_id: "s \<noteq> [] \<Longrightarrow> \<not> IsSpace (rune_at s 0) \<Longrightarrow> TrimLeftFunc s = s"
  by (simp add: TrimLeftFunc_def indexFunc.simps [of s 0])

lemma TrimSpace_prefix:
  assumes "s = [] \<or> \<not> IsSpace (rune_at s 0)"
  shows "TrimSpace s @ drop (length (TrimSpace s)) s = s"
proof -
  have "TrimLeftFunc s = s"
  proof (cases "s = []")
    case True
    then show ?thesis by (simp add: TrimLeftFunc_def Let_def)
  next
    case False
    with assms show ?thesis by (simp add: TrimLeftFunc_id)
  qed
  then have "TrimSpace s = take (length (TrimSpace s)) s"
    unfolding TrimSpace_def using TrimRightFunc_take [of s] by simp
  then show ?thesis by (metis append_take_drop_id)
qed

lemma slice_ok: "lo \<le> hi \<Longrightarrow> hi \<le> length s \<Longrightarrow> slice s lo hi = Inr (take (hi - lo) (drop lo s))"
  by (simp add: slice_def)

lemma printColoredLog_short:
  "findFieldIndices line 6 = Inr parts \<Longrightarrow> length parts < 6 \<Longrightarrow>
   printColoredLog seconds paint line lastTag lastTime lastOther opts
     = Inr (Println line, (lastTag, lastTime, lastOther))"
  by (simp add: printColoredLog_def)

lemma level_slice:
  assumes "findFieldIndices line 6 = Inr parts" "\<not> length parts < 6"
  shows "slice line (parts ! 4) (parts ! 4 + 1) = Inr [line ! (parts ! 4)]"
proof -
  from parts_facts(4) [OF assms, of 4] have lt: "parts ! 4 < length line" by simp
  then have "take 1 (drop (parts ! 4) line) = [line ! (parts ! 4)]"
    by (simp add: take_Suc_conv_app_nth Cons_nth_drop_Suc [symmetric])
  with lt show ?thesis by (simp add: slice_def)
qed

lemma printColoredLog_level:
  assumes "findFieldIndices line 6 = Inr parts" "\<not> length parts < 6"
  shows "printColoredLog seconds paint line lastTag lastTime lastOther opts =
     (case LogLevelColors [line ! (parts ! 4)] of
        None \<Rightarrow> Inr (Println line, (lastTag, lastTime, lastOther))
      | Some colorFunc \<Rightarrow>
          tag_block seconds paint line lastTag lastTime lastOther opts parts
            [line ! (parts ! 4)] colorFunc)"
  using assms level_slice [OF assms]
  by (simp add: printColoredLog_def level_block_def Let_def)

lemma tag_block_eq:
  assumes "findFieldIndices line 6 = Inr parts" "\<not> length parts < 6"
  shows "tag_block seconds paint line lastTag lastTime lastOther opts parts level colorFunc =
     (case IndexByte (drop (parts ! 5) line) (CHR '':'') of
        None \<Rightarrow> Inr (Println line, (lastTag, lastTime, lastOther))
      | Some k \<Rightarrow>
          emit_block seconds paint line lastTag lastTime lastOther opts parts level colorFunc
            (k + parts ! 5) (TrimSpace (take k (drop (parts ! 5) line)))
            (drop (length (TrimSpace (take k (drop (parts ! 5) line))))
               (take k (drop (parts ! 5) line))))"
proof -
  let ?p = "parts ! 5"
  from parts_facts(4) [OF assms, of 5] have lt: "?p < length line" by simp
  have rest: "slice line ?p (length line) = Inr (drop ?p line)"
    using lt by (simp add: slice_def)
  show ?thesis
  proof (cases "IndexByte (drop ?p line) (CHR '':'')")
    case None
    with rest show ?thesis by (simp add: tag_block_def)
  next
    case (Some k)
    from IndexByte_Some [OF Some] have "k < length line - ?p" by simp
    then have k: "k + ?p < length line" by arith
    let ?seg = "take k (drop ?p line)"
    let ?tag = "TrimSpace ?seg"
    have tt: "slice line ?p (k + ?p) = Inr ?seg" using k by (simp add: slice_def)
    have len: "length ?tag \<le> k" using TrimSpace_length [of ?seg] k by simp
    have "take (k + ?p - (?p + length ?tag)) (drop (?p + length ?tag) line)
            = drop (length ?tag) ?seg"
      using len by (simp add: drop_take add.commute)
    with len k have ts: "slice line (?p + length ?tag) (k + ?p) = Inr (drop (length ?tag) ?seg)"
      by (simp add: slice_def)
    from Some rest tt ts show ?thesis by (simp add: tag_block_def Let_def)
  qed
qed

lemma emit_block_eq:
  assumes "findFieldIndices line 6 = Inr parts" "\<not> length parts < 6"
  shows "emit_block seconds paint line lastTag lastTime lastOther opts
      parts level colorFunc colonIndex tag tagSpace =
     (case parseTimestamp line of
        None \<Rightarrow> Inr (Println line, (lastTag, lastTime, lastOther))
      | Some currentTime \<Rightarrow>
          let other = take (parts ! 1) line @ take (parts ! 4 - parts ! 2) (drop (parts ! 2) line);
              delta = Sub currentTime lastTime;
              dedup = (lastTag = tag \<and> seconds delta < seconds (MaxDelta opts));
              metadata = (if dedup then Sprintf_pad (parts ! 4) (''+'' @ Duration_String delta)
                          else take (parts ! 4) line)
          in if colonIndex + 2 \<le> length line then
               Inr (metadata @ paint colorFunc level @ '' '' @ paint TagColor tag @ tagSpace
                      @ '' : '' @ paint colorFunc (drop (colonIndex + 2) line) @ [CHR 0x0A],
                    (tag, if dedup then lastTime else currentTime,
                     if dedup then lastOther else other))
             else Inl SliceBounds)"
proof -
  from parts_facts(4) [OF assms, of 1] have o1: "slice line 0 (parts ! 1) = Inr (take (parts ! 1) line)"
    by (simp add: slice_def)
  from parts_facts(3) [OF assms, of 2 4] parts_facts(4) [OF assms, of 4]
  have o2: "slice line (parts ! 2) (parts ! 4)
      = Inr (take (parts ! 4 - parts ! 2) (drop (parts ! 2) line))"
    by (simp add: slice_def)
  from parts_facts(4) [OF assms, of 4] have md: "slice line 0 (parts ! 4) = Inr (take (parts ! 4) line)"
    by (simp add: slice_def)
  have msg: "slice line (colonIndex + 2) (length line)
      = (if colonIndex + 2 \<le> length line then Inr (drop (colonIndex + 2) line)
         else Inl SliceBounds)"
    by (simp add: slice_def)
  show ?thesis
    unfolding emit_block_def o1 o2 md msg
    by (simp add: Let_def split: option.split)
qed

lemma printColoredLog_parsed:
  assumes "findFieldIndices line 6 = Inr parts" "\<not> length parts < 6"
    and "LogLevelColors [line ! (parts ! 4)] = Some colorFunc"
    and "IndexByte (drop (parts ! 5) line) (CHR '':'') = Some k"
    and "parseTimestamp line = Some currentTime"
    and "tag = TrimSpace (take k (drop (parts ! 5) line))"
    and "tagSpace = drop (length tag) (take k (drop (parts ! 5) line))"
    and "other = take (parts ! 1) line @ take (parts ! 4 - parts ! 2) (drop (parts ! 2) line)"
    and "delta = Sub currentTime lastTime"
    and "dedup = (lastTag = tag \<and> seconds delta < seconds (MaxDelta opts))"
    and "metadata = (if dedup then Sprintf_pad (parts ! 4) (''+'' @ Duration_String delta)
                     else take (parts ! 4) line)"
  shows "printColoredLog seconds paint line lastTag lastTime lastOther opts =
     (if k + parts ! 5 + 2 \<le> length line then
        Inr (metadata @ paint colorFunc [line ! (parts ! 4)] @ '' '' @ paint TagColor tag
               @ tagSpace @ '' : '' @ paint colorFunc (drop (k + parts ! 5 + 2) line)
               @ [CHR 0x0A],
             (tag, if dedup then lastTime else currentTime, if dedup then lastOther else other))
      else Inl SliceBounds)"
  unfolding printColoredLog_level [OF assms(1,2)] tag_block_eq [OF assms(1,2)]
    emit_block_eq [OF assms(1,2)] assms(3-)
  by (simp add: Let_def)

lemma ascii_at:
  assumes "i < length s" "byte (s ! i) < 128"
  shows "rune_at s i = byte (s ! i)" "width_at s i = 1"
  using decode_ascii [of "drop i s"] assms by (simp_all add: rune_at_def width_at_def)

lemma fields_loop_end:
  "length s \<le> e \<Longrightarrow> fields_loop s e start spans
     = (if 0 \<le> start then spans @ [(nat start, length s)] else spans)"
  by (subst fields_loop.simps) simp

lemma fields_loop_ascii:
  "e < length s \<Longrightarrow> byte (s ! e) < 128 \<Longrightarrow> fields_loop s e start spans =
     (if IsSpace (byte (s ! e)) then
        (if 0 \<le> start then fields_loop s (e + 1) (- start - 1) (spans @ [(nat start, e)])
         else fields_loop s (e + 1) start spans)
      else
        (if start < 0 then fields_loop s (e + 1) (int e) spans
         else fields_loop s (e + 1) start spans))"
  by (subst fields_loop.simps) (simp add: ascii_at)

lemma scan_num:
  "scan (c # cs) i inField =
     (if c \<noteq> CHR '' '' \<and> \<not> inField then i # scan cs (i + 1) True
      else if c = CHR '' '' then scan cs (i + 1) False
      else scan cs (i + 1) inField)"
  by simp

lemma ex1_fields:
  "findFieldIndices ''04-19 19:34:18.813  5587  5708 I artd    : GetBestInfo no usable artifacts'' 6
     = Inr [0, 6, 20, 26, 31, 33]"
  by (simp add: findFieldIndices_eq scan_field_starts [symmetric] scan_num del: scan.simps(2))

lemma decode_last_ascii:
  assumes "s \<noteq> []" "byte (s ! (length s - 1)) < 128"
  shows "DecodeLastRuneInString s = (byte (s ! (length s - 1)), 1)"
proof -
  from assms(1) have "nat (int (length s) - 1) = length s - 1" by simp
  with assms show ?thesis by (simp add: DecodeLastRuneInString_def Let_def)
qed

lemma indexFunc_end: "length s \<le> start \<Longrightarrow> indexFunc s start = - 1"
  by (subst indexFunc.simps) simp

lemma indexFunc_ascii:
  "start < length s \<Longrightarrow> byte (s ! start) < 128 \<Longrightarrow>
   indexFunc s start = (if \<not> IsSpace (byte (s ! start)) then int start else indexFunc s (start + 1))"
  by (subst indexFunc.simps) (simp add: ascii_at)

lemma lastIndexFunc_0: "lastIndexFunc s 0 = - 1"
  by (subst lastIndexFunc.simps) simp

lemma lastIndexFunc_ascii:
  assumes "0 < i" "i \<le> length s" "byte (s ! (i - 1)) < 128"
  shows "lastIndexFunc s i =
     (if \<not> IsSpace (byte (s ! (i - 1))) then int i - 1 else lastIndexFunc s (i - 1))"
proof -
  from assms have ne: "take i s \<noteq> []" by auto
  from assms have l: "length (take i s) = i" by simp
  from assms have n: "take i s ! (i - 1) = s ! (i - 1)" by simp
  have d: "DecodeLastRuneInString (take i s) = (byte (s ! (i - 1)), 1)"
    using decode_last_ascii [OF ne] assms(3) by (simp only: l n)
  show ?thesis using assms(1) by (subst lastIndexFunc.simps) (simp add: d)
qed

lemma ex1_tag: "TrimSpace ''artd    '' = ''artd''"
  by (simp add: TrimSpace_def TrimLeftFunc_def TrimRightFunc_def indexFunc_ascii indexFunc_end
      lastIndexFunc_ascii lastIndexFunc_0 byte_def IsSpace_def)

lemma ex2_tag: "TrimSpace (CHR 0x09 # ''artd'') = ''artd''"
  by (simp add: TrimSpace_def TrimLeftFunc_def TrimRightFunc_def indexFunc_ascii indexFunc_end
      lastIndexFunc_ascii lastIndexFunc_0 byte_def IsSpace_def)

lemma rune_count_ascii:
  "\<forall>c\<in>set s. byte c < 128 \<Longrightarrow> i \<le> length s \<Longrightarrow> rune_count s i n = n + (length s - i)"
proof (induction "length s - i" arbitrary: i n)
  case 0
  then show ?case by (subst rune_count.simps) simp
next
  case (Suc k)
  then have lt: "i < length s" by simp
  with Suc.prems have "byte (s ! i) < 128" by simp
  from ascii_at(2) [OF lt this] have w: "width_at s i = 1" .
  have "rune_count s i n = rune_count s (i + 1) (n + 1)"
    using lt w by (subst rune_count.simps) simp
  also have "\<dots> = n + 1 + (length s - (i + 1))"
    using Suc.hyps(1) [of "i + 1" "n + 1"] Suc.hyps(2) Suc.prems lt by simp
  finally show ?case using lt by simp
qed

lemma RuneCount_ascii: "\<forall>c\<in>set s. byte c < 128 \<Longrightarrow> RuneCountInString s = length s"
  by (simp add: RuneCountInString_def rune_count_ascii)

lemma Sprintf_pad_ascii:
  "wid \<le> 1000000 \<Longrightarrow> \<forall>c\<in>set s. byte c < 128 \<Longrightarrow>
   Sprintf_pad wid s = s @ replicate (wid - length s) (CHR '' '')"
  by (simp add: Sprintf_pad_def RuneCount_ascii)

lemma ex_pad: "Sprintf_pad 31 ''+1ms'' = ''+1ms'' @ replicate 27 (CHR '' '')"
  by (simp add: Sprintf_pad_ascii byte_def)


lemma printColoredLog_failure:
  assumes "findFieldIndices line 6 = Inr parts" "\<not> length parts < 6"
    and "LogLevelColors [line ! (parts ! 4)] = None
         \<or> IndexByte (drop (parts ! 5) line) (CHR '':'') = None
         \<or> parseTimestamp line = None"
  shows "printColoredLog seconds paint line lastTag lastTime lastOther opts
           = Inr (Println line, (lastTag, lastTime, lastOther))"
  using assms(3)
  unfolding printColoredLog_level [OF assms(1,2)] tag_block_eq [OF assms(1,2)]
    emit_block_eq [OF assms(1,2)]
  by (auto split: option.split)

text \<open>
  Claim C4. When the extractor finds fewer than six field starts, the renderer writes
  the bytes of the line and the newline of \<open>fmt.Println\<close>, and returns the state it
  was given.
\<close>

theorem few_fields_pass_through:
  "findFieldIndices line 6 = Inr parts \<Longrightarrow> length parts < 6 \<Longrightarrow>
   printColoredLog seconds paint line lastTag lastTime lastOther opts
     = Inr (line @ [CHR 0x0A], (lastTag, lastTime, lastOther))"
  using printColoredLog_short [of line parts] by (simp add: Println_def)

theorem few_fields_pass_through_witness:
  "findFieldIndices ''hello world'' 6 = Inr [0, 6] \<and> length [0 :: nat, 6] < 6
   \<and> printColoredLog exact_seconds plain ''hello world'' ''artd'' 5 ''x'' defaults
       = Inr (''hello world'' @ [CHR 0x0A], (''artd'', 5, ''x''))"
proof -
  have f: "findFieldIndices ''hello world'' 6 = Inr [0, 6]"
    by (simp add: findFieldIndices_eq scan_field_starts [symmetric] scan_num del: scan.simps(2))
  have l: "length [0 :: nat, 6] < 6" by simp
  from few_fields_pass_through [OF f l] f l show ?thesis by blast
qed



lemma field_starts_no_space:
  assumes "line \<noteq> []" "CHR '' '' \<notin> set line"
  shows "field_starts line = [0]"
proof -
  from assms(1) have u: "[0..<length line] = 0 # [1..<length line]" by (simp add: upt_conv_Cons)
  from assms(1) have "line ! 0 \<in> set line" by simp
  with assms(2) have "line ! 0 \<noteq> CHR '' ''" by metis
  with assms(1) have z: "is_field_start line 0" by (simp add: is_field_start_def)
  have "\<not> is_field_start line i" if "i \<in> set [1..<length line]" for i
  proof -
    from that have "0 < i" "i - 1 < length line" by auto
    then have "line ! (i - 1) \<in> set line" by simp
    with assms(2) have "line ! (i - 1) \<noteq> CHR '' ''" by metis
    with \<open>0 < i\<close> show ?thesis by (simp add: is_field_start_def)
  qed
  then have "filter (is_field_start line) [1..<length line] = []" by (simp only: filter_empty_conv) blast
  with z show ?thesis unfolding field_starts_def u by simp
qed

text \<open>
  Claim C10. Only the space byte separates fields. At the bound 6 the renderer uses, the
  extractor returns the first six field starts of the line, where a field starts at
  every byte other than \<open>' '\<close> that opens the line or follows a \<open>' '\<close>: a tab or
  any other white space begins or continues a field. So a line without any space, with
  tabs between its tokens or not, has the single field start 0.
\<close>

theorem only_space_separates:
  "findFieldIndices line 6 = Inr (take 6 (field_starts line))
   \<and> (line \<noteq> [] \<and> CHR '' '' \<notin> set line \<longrightarrow> findFieldIndices line 6 = Inr [0])"
  by (simp add: findFieldIndices_eq field_starts_no_space)

theorem only_space_separates_witness:
  "[CHR ''a'', CHR 0x09, CHR ''b'', CHR 0x09, CHR ''c''] \<noteq> []
   \<and> CHR '' '' \<notin> set [CHR ''a'', CHR 0x09, CHR ''b'', CHR 0x09, CHR ''c'']
   \<and> findFieldIndices [CHR ''a'', CHR 0x09, CHR ''b'', CHR 0x09, CHR ''c''] 6 = Inr [0]"
proof -
  have l: "[CHR ''a'', CHR 0x09, CHR ''b'', CHR 0x09, CHR ''c''] \<noteq> []
   \<and> CHR '' '' \<notin> set [CHR ''a'', CHR 0x09, CHR ''b'', CHR 0x09, CHR ''c'']" by simp
  from only_space_separates [of "[CHR ''a'', CHR 0x09, CHR ''b'', CHR 0x09, CHR ''c'']"] l
  have "findFieldIndices [CHR ''a'', CHR 0x09, CHR ''b'', CHR 0x09, CHR ''c''] 6 = Inr [0]"
    by blast
  with l show ?thesis by blast
qed

text \<open>
  Claim C7, at the bound 0. The loop tests \<open>len(indices) >= maxFields\<close> only after it
  has appended an index, so with \<open>maxFields = 0\<close> the extractor returns one offset
  where the first 0 field starts are none. (For every bound \<open>N \<ge> 1\<close> that
  \<open>make\<close> accepts it returns \<open>take N (field_starts line)\<close>, lemma
  \<open>findFieldIndices_eq\<close>.)
\<close>

theorem findFieldIndices_zero_bound:
  "findFieldIndices ''a b'' 0 = Inr [0] \<and> take 0 (field_starts ''a b'') = []"
  by (simp add: findFieldIndices_eq scan_field_starts [symmetric] scan_num del: scan.simps(2))

text \<open>
  Claim C9. Of the options the renderer reads \<open>MaxDelta\<close> only: two runs on the same
  line and state whose options agree on \<open>MaxDelta\<close> write the same text and return the
  same state (or panic alike), whatever their filters, tag, level, device and keep-going
  flag are.
\<close>

theorem options_only_MaxDelta:
  "MaxDelta o1 = MaxDelta o2 \<Longrightarrow>
   printColoredLog seconds paint line lastTag lastTime lastOther o1
     = printColoredLog seconds paint line lastTag lastTime lastOther o2"
proof -
  assume m: "MaxDelta o1 = MaxDelta o2"
  have e: "emit_block seconds paint line lastTag lastTime lastOther o1 parts level colorFunc
             colonIndex tag tagSpace
           = emit_block seconds paint line lastTag lastTime lastOther o2 parts level colorFunc
             colonIndex tag tagSpace" for parts level colorFunc colonIndex tag tagSpace
    by (simp only: emit_block_def m)
  have t: "tag_block seconds paint line lastTag lastTime lastOther o1 parts level colorFunc
           = tag_block seconds paint line lastTag lastTime lastOther o2 parts level colorFunc"
    for parts level colorFunc
    by (simp only: tag_block_def e)
  have l: "level_block seconds paint line lastTag lastTime lastOther o1 parts
           = level_block seconds paint line lastTag lastTime lastOther o2 parts" for parts
    by (simp only: level_block_def t)
  show ?thesis by (simp only: printColoredLog_def l)
qed

theorem options_only_MaxDelta_witness:
  "MaxDelta defaults
     = MaxDelta \<lparr>Filters = [''net''], Tag = ''artd'', Level = ''E'', Device = ''-e'',
                 MaxDelta = 10000000000, KeepGoing = True\<rparr>
   \<and> printColoredLog exact_seconds plain ''04-19 19:34:18.813  5587  5708 I artd    : x''
         ''artd'' 0 [] defaults
     = printColoredLog exact_seconds plain ''04-19 19:34:18.813  5587  5708 I artd    : x''
         ''artd'' 0 []
         \<lparr>Filters = [''net''], Tag = ''artd'', Level = ''E'', Device = ''-e'',
          MaxDelta = 10000000000, KeepGoing = True\<rparr>"
proof -
  have m: "MaxDelta defaults
     = MaxDelta \<lparr>Filters = [''net''], Tag = ''artd'', Level = ''E'', Device = ''-e'',
                 MaxDelta = 10000000000, KeepGoing = True\<rparr>"
    by (simp add: defaults_def)
  from options_only_MaxDelta [OF m] m show ?thesis by blast
qed

lemma digit_char_eval:
  "digit_char 0 = CHR ''0''" "digit_char 1 = CHR ''1''" "digit_char 2 = CHR ''2''"
  "digit_char 3 = CHR ''3''" "digit_char 4 = CHR ''4''" "digit_char 5 = CHR ''5''"
  "digit_char 6 = CHR ''6''" "digit_char 7 = CHR ''7''" "digit_char 8 = CHR ''8''"
  "digit_char 9 = CHR ''9''"
  by (simp_all add: digit_char_def char_of_def)

lemma fmtInt_loop_eval:
  "fmtInt_loop buf (numeral n) = fmtInt_loop (digit_char (numeral n mod 10) # buf) (numeral n div 10)"
  "fmtInt_loop buf 1 = CHR ''1'' # buf"
  "fmtInt_loop buf 0 = buf"
  by (subst fmtInt_loop.simps, simp add: fmtInt_loop.simps [of _ 0] digit_char_eval)+

lemmas eval_fields = findFieldIndices_eq scan_field_starts [symmetric] scan_num

lemmas eval_parse = parseTimestamp_def Fields_def fields_loop_ascii fields_loop_end byte_def
  IsSpace_def Parse_def parse_clock_def parse_frac_def getnum_def isDigit_def digit_def
  skip_lit_def skip_space_def parseNanoseconds_def atoi3_def daysIn_def daysBefore_def Date0_def

lemmas eval_trim = TrimSpace_def TrimLeftFunc_def TrimRightFunc_def indexFunc_ascii indexFunc_end
  lastIndexFunc_ascii lastIndexFunc_0 byte_def IsSpace_def

lemmas eval_duration = Duration_String_def fmtFrac_def fmtInt_def digit_char_eval
  fmtInt_loop_eval eval_nat_numeral

lemma colon_at_end_steps:
  "findFieldIndices ''04-19 19:34:18.813  5587  5708 I artd:'' 6 = Inr [0, 6, 20, 26, 31, 33]"
  "LogLevelColors [''04-19 19:34:18.813  5587  5708 I artd:'' ! ([0, 6, 20, 26, 31, 33] ! 4)]
     = Some [FgGreen]"
  "IndexByte (drop ([0, 6, 20, 26, 31, 33] ! 5) ''04-19 19:34:18.813  5587  5708 I artd:'')
     (CHR '':'') = Some 4"
  "parseTimestamp ''04-19 19:34:18.813  5587  5708 I artd:'' = Some (- 22134341187000000)"
proof -
  let ?line = "''04-19 19:34:18.813  5587  5708 I artd:''"
  show "findFieldIndices ?line 6 = Inr [0, 6, 20, 26, 31, 33]"
    by (simp add: eval_fields del: scan.simps(2))
  show "LogLevelColors [?line ! ([0, 6, 20, 26, 31, 33] ! 4)] = Some [FgGreen]"
    by (simp add: LogLevelColors_def)
  show "IndexByte (drop ([0, 6, 20, 26, 31, 33] ! 5) ?line) (CHR '':'') = Some 4"
    by simp
  show "parseTimestamp ?line = Some (- 22134341187000000)"
    by (simp add: eval_parse)
qed

lemma colon_at_end_result:
  "printColoredLog seconds paint ''04-19 19:34:18.813  5587  5708 I artd:''
     lastTag lastTime lastOther opts = Inl SliceBounds"
proof -
  have n: "\<not> length [0 :: nat, 6, 20, 26, 31, 33] < 6" by simp
  show ?thesis
    unfolding printColoredLog_parsed [OF colon_at_end_steps(1) n colon_at_end_steps(2-4)
        refl refl refl refl refl refl]
    by simp
qed

text \<open>
  Claim C3, at a line whose colon is its last byte. The line has six fields, a known
  level, a colon after the tag and a timestamp that parses; the message slice
  \<open>line[colonIndex+2:]\<close> then starts one byte beyond the end of the line and the
  renderer panics, whatever the state and the options are.
\<close>

theorem colon_at_end_panics:
  "printColoredLog seconds paint ''04-19 19:34:18.813  5587  5708 I artd:''
     lastTag lastTime lastOther opts = Inl SliceBounds"
  by (rule colon_at_end_result)

text \<open>
  Claim C2, at the same line. All four steps of the parse succeed on it: six field
  starts, the level \<open>I\<close>, a colon four bytes after the tag offset, and the timestamp.
  Yet the renderer returns no state at all, neither the one the claim describes nor
  the old one, because it panics at the message slice.
\<close>

theorem parsed_line_returns_no_state:
  "findFieldIndices ''04-19 19:34:18.813  5587  5708 I artd:'' 6 = Inr [0, 6, 20, 26, 31, 33]
   \<and> LogLevelColors [''04-19 19:34:18.813  5587  5708 I artd:'' ! 31] = Some [FgGreen]
   \<and> IndexByte (drop 33 ''04-19 19:34:18.813  5587  5708 I artd:'') (CHR '':'') = Some 4
   \<and> parseTimestamp ''04-19 19:34:18.813  5587  5708 I artd:'' = Some (- 22134341187000000)
   \<and> (\<forall>out st. printColoredLog seconds paint ''04-19 19:34:18.813  5587  5708 I artd:''
          lastTag lastTime lastOther opts \<noteq> Inr (out, st))"
  using colon_at_end_steps colon_at_end_result [of seconds paint lastTag lastTime lastOther opts]
  by simp

text \<open>
  Claim C6, at a line whose tag field starts with a tab. \<open>strings.TrimSpace\<close> trims
  the tab in front of the tag as well, while \<open>tagSpace\<close> is sliced as if only the
  end had been trimmed. Between the tag offset and the colon the line has a tab and
  \<open>artd\<close>; the renderer takes the tag \<open>artd\<close> and the padding \<open>d\<close>, which
  together are \<open>artdd\<close>.
\<close>

theorem leading_tab_breaks_tag_padding:
  "printColoredLog seconds paint (''04-19 19:34:18.813  5587  5708 I '' @ [CHR 0x09] @ ''artd: x'')
     [] 0 [] opts
   = Inr (''04-19 19:34:18.813  5587  5708 '' @ paint [FgGreen] ''I'' @ '' ''
            @ paint TagColor ''artd'' @ ''d'' @ '' : '' @ paint [FgGreen] ''x'' @ [CHR 0x0A],
          (''artd'', - 22134341187000000, ''04-19 5587  5708 ''))
   \<and> take 5 (drop 33 (''04-19 19:34:18.813  5587  5708 I '' @ [CHR 0x09] @ ''artd: x''))
       = [CHR 0x09] @ ''artd''
   \<and> ''artd'' @ ''d'' \<noteq> [CHR 0x09] @ ''artd''"
proof -
  let ?line = "''04-19 19:34:18.813  5587  5708 I '' @ [CHR 0x09] @ ''artd: x''"
  have f: "findFieldIndices ?line 6 = Inr [0, 6, 20, 26, 31, 33]"
    by (simp add: eval_fields del: scan.simps(2))
  have n: "\<not> length [0 :: nat, 6, 20, 26, 31, 33] < 6" by simp
  have lv: "LogLevelColors [?line ! ([0, 6, 20, 26, 31, 33] ! 4)] = Some [FgGreen]"
    by (simp add: LogLevelColors_def)
  have ix: "IndexByte (drop ([0, 6, 20, 26, 31, 33] ! 5) ?line) (CHR '':'') = Some 5"
    by simp
  have ts: "parseTimestamp ?line = Some (- 22134341187000000)"
    by (simp add: eval_parse)
  have tg: "TrimSpace (take 5 (drop ([0, 6, 20, 26, 31, 33] ! 5) ?line)) = ''artd''"
    by (simp add: eval_trim)
  have "printColoredLog seconds paint ?line [] 0 [] opts
   = Inr (''04-19 19:34:18.813  5587  5708 '' @ paint [FgGreen] ''I'' @ '' ''
            @ paint TagColor ''artd'' @ ''d'' @ '' : '' @ paint [FgGreen] ''x'' @ [CHR 0x0A],
          (''artd'', - 22134341187000000, ''04-19 5587  5708 ''))"
    unfolding printColoredLog_parsed [OF f n lv ix ts refl refl refl refl refl refl] tg
    by simp
  then show ?thesis by simp
qed

text \<open>
  Claim C8. The example line as the first line of a session (no last tag, the zero
  time, no last other text) is written with its own metadata column
  \<open>04-19 19:34:18.813  5587  5708 \<close> and leaves \<open>lastTag = artd\<close>. The same line
  one millisecond later, under a threshold above that millisecond (in seconds, as the
  renderer compares), is written with \<open>+1ms\<close> followed by 27 spaces, which is as
  wide as the metadata column of the first line, and leaves the state as it was.
\<close>

theorem example_session:
  "printColoredLog seconds paint
     ''04-19 19:34:18.813  5587  5708 I artd    : GetBestInfo no usable artifacts'' [] 0 [] opts
   = Inr (''04-19 19:34:18.813  5587  5708 '' @ paint [FgGreen] ''I'' @ '' ''
            @ paint TagColor ''artd'' @ ''    '' @ '' : ''
            @ paint [FgGreen] ''GetBestInfo no usable artifacts'' @ [CHR 0x0A],
          (''artd'', - 22134341187000000, ''04-19 5587  5708 ''))
   \<and> (seconds 1000000 < seconds (MaxDelta opts) \<longrightarrow>
        printColoredLog seconds paint
          ''04-19 19:34:18.814  5587  5708 I artd    : GetBestInfo no usable artifacts''
          ''artd'' (- 22134341187000000) ''04-19 5587  5708 '' opts
        = Inr ((''+1ms'' @ replicate 27 (CHR '' '')) @ paint [FgGreen] ''I'' @ '' ''
                 @ paint TagColor ''artd'' @ ''    '' @ '' : ''
                 @ paint [FgGreen] ''GetBestInfo no usable artifacts'' @ [CHR 0x0A],
               (''artd'', - 22134341187000000, ''04-19 5587  5708 '')))
   \<and> length (''+1ms'' @ replicate 27 (CHR '' '')) = length ''04-19 19:34:18.813  5587  5708 ''"
proof -
  let ?l1 = "''04-19 19:34:18.813  5587  5708 I artd    : GetBestInfo no usable artifacts''"
  let ?l2 = "''04-19 19:34:18.814  5587  5708 I artd    : GetBestInfo no usable artifacts''"
  have n: "\<not> length [0 :: nat, 6, 20, 26, 31, 33] < 6" by simp
  have f1: "findFieldIndices ?l1 6 = Inr [0, 6, 20, 26, 31, 33]"
    by (simp add: eval_fields del: scan.simps(2))
  have lv1: "LogLevelColors [?l1 ! ([0, 6, 20, 26, 31, 33] ! 4)] = Some [FgGreen]"
    by (simp add: LogLevelColors_def)
  have ix1: "IndexByte (drop ([0, 6, 20, 26, 31, 33] ! 5) ?l1) (CHR '':'') = Some 8"
    by simp
  have ts1: "parseTimestamp ?l1 = Some (- 22134341187000000)"
    by (simp add: eval_parse)
  have tg1: "TrimSpace (take 8 (drop ([0, 6, 20, 26, 31, 33] ! 5) ?l1)) = ''artd''"
    by (simp add: eval_trim)
  have first: "printColoredLog seconds paint ?l1 [] 0 [] opts
   = Inr (''04-19 19:34:18.813  5587  5708 '' @ paint [FgGreen] ''I'' @ '' ''
            @ paint TagColor ''artd'' @ ''    '' @ '' : ''
            @ paint [FgGreen] ''GetBestInfo no usable artifacts'' @ [CHR 0x0A],
          (''artd'', - 22134341187000000, ''04-19 5587  5708 ''))"
    unfolding printColoredLog_parsed [OF f1 n lv1 ix1 ts1 refl refl refl refl refl refl] tg1
    by simp
  have f2: "findFieldIndices ?l2 6 = Inr [0, 6, 20, 26, 31, 33]"
    by (simp add: eval_fields del: scan.simps(2))
  have lv2: "LogLevelColors [?l2 ! ([0, 6, 20, 26, 31, 33] ! 4)] = Some [FgGreen]"
    by (simp add: LogLevelColors_def)
  have ix2: "IndexByte (drop ([0, 6, 20, 26, 31, 33] ! 5) ?l2) (CHR '':'') = Some 8"
    by simp
  have ts2: "parseTimestamp ?l2 = Some (- 22134341186000000)"
    by (simp add: eval_parse)
  have tg2: "TrimSpace (take 8 (drop ([0, 6, 20, 26, 31, 33] ! 5) ?l2)) = ''artd''"
    by (simp add: eval_trim)
  have d: "Sub (- 22134341186000000) (- 22134341187000000) = 1000000"
    by (simp add: Sub_def minDuration_def maxDuration_def)
  have ds: "Duration_String 1000000 = ''1ms''"
    by (simp add: eval_duration)
  have pd: "Sprintf_pad ([0, 6, 20, 26, 31, 33] ! 4) (''+'' @ ''1ms'')
      = ''+1ms'' @ replicate 27 (CHR '' '')"
    by (simp add: Sprintf_pad_ascii byte_def)
  have second: "printColoredLog seconds paint ?l2 ''artd'' (- 22134341187000000)
          ''04-19 5587  5708 '' opts
        = Inr ((''+1ms'' @ replicate 27 (CHR '' '')) @ paint [FgGreen] ''I'' @ '' ''
                 @ paint TagColor ''artd'' @ ''    '' @ '' : ''
                 @ paint [FgGreen] ''GetBestInfo no usable artifacts'' @ [CHR 0x0A],
               (''artd'', - 22134341187000000, ''04-19 5587  5708 ''))"
    if "seconds 1000000 < seconds (MaxDelta opts)"
    unfolding printColoredLog_parsed [OF f2 n lv2 ix2 ts2 refl refl refl refl refl refl]
      tg2 d ds pd
    using that by simp
  have "length (''+1ms'' @ replicate 27 (CHR '' '')) = length ''04-19 19:34:18.813  5587  5708 ''"
    by simp
  with first second show ?thesis by blast
qed

theorem example_session_witness:
  "exact_seconds 1000000 < exact_seconds (MaxDelta defaults)
   \<and> printColoredLog exact_seconds plain
          ''04-19 19:34:18.814  5587  5708 I artd    : GetBestInfo no usable artifacts''
          ''artd'' (- 22134341187000000) ''04-19 5587  5708 '' defaults
        = Inr ((''+1ms'' @ replicate 27 (CHR '' '')) @ ''I artd     : GetBestInfo no usable artifacts''
                 @ [CHR 0x0A],
               (''artd'', - 22134341187000000, ''04-19 5587  5708 ''))"
proof -
  have h: "exact_seconds 1000000 < exact_seconds (MaxDelta defaults)"
    by (simp add: exact_seconds_def defaults_def)
  from example_session [of exact_seconds plain defaults] h show ?thesis
    by (simp add: plain_def)
qed

text \<open>
  The state the renderer returns on the lines it renders or passes through. When the
  line fails to parse the state is returned as it was. When the line parses and its
  message slice lies within the line, \<open>lastTag\<close> becomes the new tag; under the
  deduplication condition \<open>lastTime\<close> and \<open>lastOther\<close> are as before, otherwise
  they are the timestamp of the line and its other text.
\<close>

lemma state_update:
  assumes "findFieldIndices line 6 = Inr parts"
    and "tag = TrimSpace (take k (drop (parts ! 5) line))"
    and "other = take (parts ! 1) line @ take (parts ! 4 - parts ! 2) (drop (parts ! 2) line)"
    and "dedup = (lastTag = tag \<and> seconds (Sub currentTime lastTime) < seconds (MaxDelta opts))"
  shows "(length parts < 6 \<or> LogLevelColors [line ! (parts ! 4)] = None
          \<or> IndexByte (drop (parts ! 5) line) (CHR '':'') = None
          \<or> parseTimestamp line = None
          \<longrightarrow> printColoredLog seconds paint line lastTag lastTime lastOther opts
                = Inr (Println line, (lastTag, lastTime, lastOther)))
       \<and> (6 \<le> length parts \<and> LogLevelColors [line ! (parts ! 4)] = Some colorFunc
          \<and> IndexByte (drop (parts ! 5) line) (CHR '':'') = Some k
          \<and> parseTimestamp line = Some currentTime
          \<and> k + parts ! 5 + 2 \<le> length line
          \<longrightarrow> (\<exists>out. printColoredLog seconds paint line lastTag lastTime lastOther opts
                = Inr (out, (tag, if dedup then lastTime else currentTime,
                             if dedup then lastOther else other))))"
proof (intro conjI impI)
  assume fail: "length parts < 6 \<or> LogLevelColors [line ! (parts ! 4)] = None
          \<or> IndexByte (drop (parts ! 5) line) (CHR '':'') = None
          \<or> parseTimestamp line = None"
  show "printColoredLog seconds paint line lastTag lastTime lastOther opts
                = Inr (Println line, (lastTag, lastTime, lastOther))"
  proof (cases "length parts < 6")
    case True
    from printColoredLog_short [OF assms(1) True] show ?thesis .
  next
    case False
    with fail have "LogLevelColors [line ! (parts ! 4)] = None
          \<or> IndexByte (drop (parts ! 5) line) (CHR '':'') = None
          \<or> parseTimestamp line = None" by simp
    from printColoredLog_failure [OF assms(1) False this] show ?thesis .
  qed
next
  assume ok: "6 \<le> length parts \<and> LogLevelColors [line ! (parts ! 4)] = Some colorFunc
          \<and> IndexByte (drop (parts ! 5) line) (CHR '':'') = Some k
          \<and> parseTimestamp line = Some currentTime
          \<and> k + parts ! 5 + 2 \<le> length line"
  then have n: "\<not> length parts < 6" by simp
  from ok have lv: "LogLevelColors [line ! (parts ! 4)] = Some colorFunc"
    and ix: "IndexByte (drop (parts ! 5) line) (CHR '':'') = Some k"
    and ts: "parseTimestamp line = Some currentTime"
    and le: "k + parts ! 5 + 2 \<le> length line" by simp_all
  show "\<exists>out. printColoredLog seconds paint line lastTag lastTime lastOther opts
                = Inr (out, (tag, if dedup then lastTime else currentTime,
                             if dedup then lastOther else other))"
    unfolding printColoredLog_parsed [OF assms(1) n lv ix ts assms(2) refl assms(3) refl assms(4) refl]
    using le by simp
qed

lemma state_update_example:
  "(\<exists>out. printColoredLog exact_seconds plain
       ''04-19 19:34:18.814  5587  5708 I artd    : GetBestInfo no usable artifacts''
       ''artd'' (- 22134341187000000) ''04-19 5587  5708 '' defaults
     = Inr (out, (''artd'', - 22134341187000000, ''04-19 5587  5708 '')))
   \<and> (\<exists>out. printColoredLog exact_seconds plain
       ''04-19 19:34:18.814  5587  5708 I artd    : GetBestInfo no usable artifacts''
       ''netd'' (- 22134341187000000) ''04-19 5587  5708 '' defaults
     = Inr (out, (''artd'', - 22134341186000000, ''04-19 5587  5708 '')))
   \<and> printColoredLog exact_seconds plain ''04-19 19:34:18.814  5587  5708 I artd''
       ''netd'' 0 ''o'' defaults
     = Inr (Println ''04-19 19:34:18.814  5587  5708 I artd'', (''netd'', 0, ''o''))"
proof -
  let ?l2 = "''04-19 19:34:18.814  5587  5708 I artd    : GetBestInfo no usable artifacts''"
  let ?l3 = "''04-19 19:34:18.814  5587  5708 I artd''"
  let ?p = "[0 :: nat, 6, 20, 26, 31, 33]"
  have f2: "findFieldIndices ?l2 6 = Inr ?p"
    by (simp add: eval_fields del: scan.simps(2))
  have n: "6 \<le> length ?p" by simp
  have lv2: "LogLevelColors [?l2 ! (?p ! 4)] = Some [FgGreen]"
    by (simp add: LogLevelColors_def)
  have ix2: "IndexByte (drop (?p ! 5) ?l2) (CHR '':'') = Some 8"
    by simp
  have ts2: "parseTimestamp ?l2 = Some (- 22134341186000000)"
    by (simp add: eval_parse)
  have le: "8 + ?p ! 5 + 2 \<le> length ?l2" by simp
  have tg2: "TrimSpace (take 8 (drop (?p ! 5) ?l2)) = ''artd''"
    by (simp add: eval_trim)
  have ot: "take (?p ! 1) ?l2 @ take (?p ! 4 - ?p ! 2) (drop (?p ! 2) ?l2) = ''04-19 5587  5708 ''"
    by simp
  have d: "Sub (- 22134341186000000) (- 22134341187000000) = 1000000"
    by (simp add: Sub_def minDuration_def maxDuration_def)
  have dd: "(''artd'' = ''artd''
      \<and> exact_seconds (Sub (- 22134341186000000) (- 22134341187000000))
          < exact_seconds (MaxDelta defaults)) = True"
    by (simp add: d exact_seconds_def defaults_def)
  have nd: "(''netd'' = ''artd''
      \<and> exact_seconds (Sub (- 22134341186000000) (- 22134341187000000))
          < exact_seconds (MaxDelta defaults)) = False"
    by simp
  have a: "\<exists>out. printColoredLog exact_seconds plain ?l2 ''artd'' (- 22134341187000000)
       ''04-19 5587  5708 '' defaults
     = Inr (out, (''artd'', - 22134341187000000, ''04-19 5587  5708 ''))"
    using state_update [where paint = plain and colorFunc = "[FgGreen]"
          and lastOther = "''04-19 5587  5708 ''",
        OF f2 tg2 [symmetric] ot [symmetric] dd [symmetric]]
      n lv2 ix2 ts2 le by simp
  have b: "\<exists>out. printColoredLog exact_seconds plain ?l2 ''netd'' (- 22134341187000000)
       ''04-19 5587  5708 '' defaults
     = Inr (out, (''artd'', - 22134341186000000, ''04-19 5587  5708 ''))"
    using state_update [where paint = plain and colorFunc = "[FgGreen]"
          and lastOther = "''04-19 5587  5708 ''",
        OF f2 tg2 [symmetric] ot [symmetric] nd [symmetric]]
      n lv2 ix2 ts2 le by simp
  have f3: "findFieldIndices ?l3 6 = Inr ?p"
    by (simp add: eval_fields del: scan.simps(2))
  have ix3: "IndexByte (drop (?p ! 5) ?l3) (CHR '':'') = None"
    by simp
  have c: "printColoredLog exact_seconds plain ?l3 ''netd'' 0 ''o'' defaults
     = Inr (Println ?l3, (''netd'', 0, ''o''))"
    using state_update [where paint = plain and lastOther = "''o''" and lastTag = "''netd''"
          and seconds = exact_seconds and lastTime = 0 and opts = defaults,
        OF f3 refl refl refl]
      ix3 by blast
  from a b c show ?thesis by blast
qed











lemma low_append: "low (a @ b) \<longleftrightarrow> low a \<and> low b"
  by (auto simp: low_def)

lemma low_Cons: "low (c # s) \<longleftrightarrow> byte c < 68 \<and> low s"
  by (simp add: low_def)

lemma isDigit_props:
  "isDigit s i \<Longrightarrow> i < length s \<and> byte (s ! i) < 68 \<and> 0 \<le> digit (s ! i) \<and> digit (s ! i) \<le> 9"
  by (auto simp: isDigit_def digit_def)

lemma getnum_props:
  assumes "getnum s fixed = Some (x, s')"
  shows "\<exists>p. s = p @ s' \<and> low p \<and> 1 \<le> length p \<and> (fixed \<longrightarrow> length p = 2) \<and> 0 \<le> x \<and> x < 100"
proof (cases "isDigit s 1")
  case True
  from assms have d0: "isDigit s 0" by (simp add: getnum_def split: if_splits)
  from assms True d0 have r: "x = digit (s ! 0) * 10 + digit (s ! 1)" "s' = drop 2 s"
    by (simp_all add: getnum_def)
  from isDigit_props [OF d0] isDigit_props [OF True]
  have p: "2 \<le> length s" "byte (s ! 0) < 68" "byte (s ! 1) < 68"
    "0 \<le> digit (s ! 0)" "digit (s ! 0) \<le> 9" "0 \<le> digit (s ! 1)" "digit (s ! 1) \<le> 9"
    by simp_all
  have t: "take 2 s = [s ! 0, s ! 1]"
    using p(1) by (cases s; cases "tl s") auto
  have "s = take 2 s @ s'" by (simp add: r)
  moreover have "low (take 2 s)" unfolding t using p by (simp add: low_def)
  moreover have "length (take 2 s) = 2" using p by simp
  moreover have "0 \<le> x" "x < 100" using p by (simp_all add: r)
  ultimately show ?thesis by (intro exI [of _ "take 2 s"]) simp
next
  case False
  from assms have d0: "isDigit s 0" by (simp add: getnum_def split: if_splits)
  from assms False d0 have r: "x = digit (s ! 0)" "s' = drop 1 s" "\<not> fixed"
    by (simp_all add: getnum_def split: if_splits)
  from isDigit_props [OF d0]
  have p: "1 \<le> length s" "byte (s ! 0) < 68" "0 \<le> digit (s ! 0)" "digit (s ! 0) \<le> 9"
    by (simp_all add: Suc_le_eq)
  have t: "take 1 s = [s ! 0]" using p(1) by (cases s) auto
  have "s = take 1 s @ s'" by (simp add: r)
  moreover have "low (take 1 s)" unfolding t using p by (simp add: low_def)
  moreover have "length (take 1 s) = 1" using p by simp
  moreover have "0 \<le> x" "x < 100" using p by (simp_all add: r)
  ultimately show ?thesis using r(3) by (intro exI [of _ "take 1 s"]) simp
qed

lemma skip_lit_props: "skip_lit s c = Some s' \<Longrightarrow> s = c # s'"
  by (cases s) (auto simp: skip_lit_def split: if_splits)

lemma skip_space_props:
  assumes "skip_space s = Some s'" "s' \<noteq> []"
  shows "\<exists>p. s = p @ s' \<and> low p \<and> 1 \<le> length p"
proof -
  let ?p = "takeWhile (\<lambda>c. c = CHR '' '') s"
  from assms(1) have s': "s' = dropWhile (\<lambda>c. c = CHR '' '') s" and h: "s = [] \<or> s ! 0 = CHR '' ''"
    by (auto simp: skip_space_def split: if_splits)
  from assms(2) s' have "s \<noteq> []" by auto
  with h have "s ! 0 = CHR '' ''" by simp
  with \<open>s \<noteq> []\<close> have "?p \<noteq> []" by (cases s) auto
  moreover have "s = ?p @ s'" by (simp add: s')
  moreover have "low ?p"
  proof -
    have "c = CHR '' ''" if "c \<in> set ?p" for c using set_takeWhileD [OF that] by simp
    then have "\<forall>c\<in>set ?p. c = CHR '' ''" by blast
    moreover have "byte (CHR '' '') < 68" by (simp add: byte_def)
    ultimately show ?thesis unfolding low_def by metis
  qed
  ultimately show ?thesis by (intro exI [of _ ?p]) (simp add: Suc_le_eq)
qed

lemma atoi3_props:
  assumes "atoi3 s = Some x" "length s = 3" "0 \<le> x"
  shows "x \<le> 999 \<and> low (tl s)"
proof -
  from assms(2) obtain a b c where s: "s = [a, b, c]"
    by (cases s; cases "tl s"; cases "tl (tl s)") auto
  show ?thesis
  proof (cases "a = CHR ''-'' \<or> a = CHR ''+''")
    case True
    with assms(1) s have d: "isDigit s 1" "isDigit s 2"
      by (auto simp: atoi3_def Let_def split: if_splits)
    with assms(1) s True
    have x: "x = (if a = CHR ''-'' then - (digit (s ! 1) * 10 + digit (s ! 2))
                  else digit (s ! 1) * 10 + digit (s ! 2))"
      by (auto simp: atoi3_def Let_def)
    from isDigit_props [OF d(1)] isDigit_props [OF d(2)]
    have p: "byte (s ! 1) < 68" "byte (s ! 2) < 68" "0 \<le> digit (s ! 1)" "digit (s ! 1) \<le> 9"
      "0 \<le> digit (s ! 2)" "digit (s ! 2) \<le> 9" by simp_all
    from p x have "x \<le> 999" by (simp split: if_splits)
    moreover from p s have "low (tl s)" by (simp add: low_def)
    ultimately show ?thesis by simp
  next
    case False
    with assms(1) s have d: "isDigit s 0" "isDigit s 1" "isDigit s 2"
      and x: "x = digit (s ! 0) * 100 + digit (s ! 1) * 10 + digit (s ! 2)"
      by (auto simp: atoi3_def Let_def split: if_splits)
    from isDigit_props [OF d(1)] isDigit_props [OF d(2)] isDigit_props [OF d(3)] x s
    show ?thesis by (simp add: low_def)
  qed
qed

lemma atoi3_first:
  assumes "atoi3 s = Some x" "length s = 3"
  shows "byte (s ! 0) < 68"
proof (cases "s ! 0 = CHR ''-'' \<or> s ! 0 = CHR ''+''")
  case True
  then show ?thesis by (auto simp: byte_def)
next
  case False
  with assms(1) have "isDigit s 0" by (auto simp: atoi3_def split: if_splits)
  from isDigit_props [OF this] show ?thesis by simp
qed

lemma parseNanoseconds_props:
  assumes "parseNanoseconds v = Some (ns, v')"
  shows "\<exists>p. v = p @ v' \<and> low p \<and> length p = 4 \<and> 0 \<le> ns \<and> ns \<le> 999000000
             \<and> ns mod 1000000 = 0"
proof -
  let ?s = "take 3 (drop 1 v)"
  from assms have l: "4 \<le> length v" and m: "v ! 0 = CHR ''.'' \<or> v ! 0 = CHR '',''"
    by (auto simp: parseNanoseconds_def split: if_splits)
  from assms l m obtain x where x: "atoi3 ?s = Some x" "0 \<le> x" "ns = x * 1000000" "v' = drop 4 v"
    by (auto simp: parseNanoseconds_def split: if_splits option.splits)
  from l have ls: "length ?s = 3" by simp
  from atoi3_props [OF x(1) ls x(2)] atoi3_first [OF x(1) ls]
  have a: "x \<le> 999" "low (tl ?s)" "byte (?s ! 0) < 68" by simp_all
  from ls obtain a1 a2 a3 where s3: "?s = [a1, a2, a3]"
    by (cases ?s; cases "tl ?s"; cases "tl (tl ?s)") auto
  from s3 have "?s ! 0 = a1" by simp
  with a(3) have "byte a1 < 68" by metis
  with a(2) s3 have "low ?s" by (simp add: low_def)
  moreover from l have "take 4 v = v ! 0 # ?s"
    by (cases v) (auto simp: take_Suc_conv_app_nth numeral_eq_Suc)
  moreover from m have "byte (v ! 0) < 68" by (auto simp: byte_def)
  ultimately have "low (take 4 v)" by (simp add: low_Cons)
  moreover have "v = take 4 v @ v'" by (simp add: x(4))
  moreover have "length (take 4 v) = 4" using l by simp
  ultimately show ?thesis using x a by (intro exI [of _ "take 4 v"]) simp
qed

lemma day_of_year:
  assumes "1 \<le> month" "month \<le> 12" "1 \<le> day" "day \<le> daysIn month"
  shows "0 \<le> daysBefore month + (day - 1) \<and> daysBefore month + (day - 1) \<le> 365"
proof -
  from assms(1,2) have "month = 1 \<or> month = 2 \<or> month = 3 \<or> month = 4 \<or> month = 5
    \<or> month = 6 \<or> month = 7 \<or> month = 8 \<or> month = 9 \<or> month = 10 \<or> month = 11
    \<or> month = 12" by arith
  then show ?thesis using assms(3,4)
    by (elim disjE) (simp_all add: daysIn_def daysBefore_def)
qed

lemma Date0_stamp:
  assumes "1 \<le> month" "month \<le> 12" "1 \<le> day" "day \<le> daysIn month"
    "0 \<le> hour" "hour < 24" "0 \<le> minute" "minute < 60" "0 \<le> sec" "sec < 60"
    "0 \<le> nsec" "nsec \<le> 999000000" "nsec mod 1000000 = 0"
  shows "stamp (Date0 month day hour minute sec nsec)"
proof -
  define D where "D = daysBefore month + (day - 1) - 366"
  from day_of_year [OF assms(1-4)] have D: "- 366 \<le> D" "D \<le> - 1" by (simp_all add: D_def)
  define S where "S = ((D * 24 + hour) * 60 + minute) * 60 + sec"
  from D assms(5-10) have S: "- 31622400 \<le> S" "S \<le> - 1" by (simp_all add: S_def)
  have t: "Date0 month day hour minute sec nsec = S * 1000000000 + nsec"
    by (simp add: Date0_def S_def D_def)
  from S assms(11,12) have "- 31622400000000000 \<le> S * 1000000000 + nsec"
    "S * 1000000000 + nsec < 0" by simp_all
  moreover have "(S * 1000000000 + nsec) mod 1000000 = 0"
  proof -
    have "S * 1000000000 = 1000000 * (S * 1000)" by simp
    then have "(S * 1000000000 + nsec) mod 1000000 = nsec mod 1000000"
      by (metis mod_mult_self4)
    with assms(13) show ?thesis by simp
  qed
  ultimately show ?thesis by (simp add: stamp_def t)
qed

lemma parse_frac_props:
  assumes "parse_frac v9 month day hour minute sec = Some t"
    "1 \<le> month" "month \<le> 12" "0 \<le> hour" "hour < 24" "0 \<le> minute" "minute < 60"
    "0 \<le> sec" "sec < 60"
  shows "stamp t \<and> low v9 \<and> length v9 = 4"
proof -
  from assms(1) obtain nsec v10 where p: "parseNanoseconds v9 = Some (nsec, v10)"
    by (auto simp: parse_frac_def split: option.splits)
  with assms(1) have r: "v10 = []" "1 \<le> day" "day \<le> daysIn month"
    "t = Date0 month day hour minute sec nsec"
    by (auto simp: parse_frac_def split: if_splits)
  from parseNanoseconds_props [OF p] r(1)
  have n: "low v9" "length v9 = 4" "0 \<le> nsec" "nsec \<le> 999000000" "nsec mod 1000000 = 0"
    by auto
  from Date0_stamp [OF assms(2,3) r(2,3) assms(4-9) n(3-5)] n(1,2) r(4) show ?thesis by simp
qed

lemma parse_clock_props:
  assumes "parse_clock v4 month day = Some t" "1 \<le> month" "month \<le> 12"
  shows "stamp t \<and> low v4 \<and> 11 \<le> length v4"
proof -
  from assms(1) obtain hour v5 where g1: "getnum v4 False = Some (hour, v5)"
    by (auto simp: parse_clock_def split: option.splits)
  with assms(1) have h: "hour < 24" by (auto simp: parse_clock_def split: if_splits)
  from assms(1) g1 h obtain v6 where k1: "skip_lit v5 (CHR '':'') = Some v6"
    by (auto simp: parse_clock_def split: option.splits)
  from assms(1) g1 h k1 obtain minute v7 where g2: "getnum v6 True = Some (minute, v7)"
    by (auto simp: parse_clock_def split: option.splits)
  with assms(1) g1 h k1 have m: "minute < 60" by (auto simp: parse_clock_def split: if_splits)
  from assms(1) g1 h k1 g2 m obtain v8 where k2: "skip_lit v7 (CHR '':'') = Some v8"
    by (auto simp: parse_clock_def split: option.splits)
  from assms(1) g1 h k1 g2 m k2 obtain sec v9 where g3: "getnum v8 True = Some (sec, v9)"
    by (auto simp: parse_clock_def split: option.splits)
  with assms(1) g1 h k1 g2 m k2 have s: "sec < 60" by (auto simp: parse_clock_def split: if_splits)
  from assms(1) g1 h k1 g2 m k2 g3 s have f: "parse_frac v9 month day hour minute sec = Some t"
    by (simp add: parse_clock_def)
  from getnum_props [OF g1] obtain p1 where p1: "v4 = p1 @ v5" "low p1" "1 \<le> length p1" "0 \<le> hour"
    by auto
  from getnum_props [OF g2] obtain p2 where p2: "v6 = p2 @ v7" "low p2" "length p2 = 2" "0 \<le> minute"
    by auto
  from getnum_props [OF g3] obtain p3 where p3: "v8 = p3 @ v9" "low p3" "length p3 = 2" "0 \<le> sec"
    by auto
  from parse_frac_props [OF f assms(2,3) p1(4) h p2(4) m p3(4) s]
  have fr: "stamp t" "low v9" "length v9 = 4" by simp_all
  have c: "byte (CHR '':'') < 68" by (simp add: byte_def)
  have v4: "v4 = p1 @ CHR '':'' # p2 @ CHR '':'' # p3 @ v9"
    using p1(1) p2(1) p3(1) skip_lit_props [OF k1] skip_lit_props [OF k2] by simp
  have "low v4" unfolding v4 using p1(2) p2(2) p3(2) fr(2) c by (simp add: low_append low_Cons)
  moreover have "11 \<le> length v4" unfolding v4 using p1(3) p2(3) p3(3) fr(3) by simp
  ultimately show ?thesis using fr(1) by simp
qed

lemma Parse_props:
  assumes "Parse v = Some t"
  shows "stamp t \<and> low v \<and> 17 \<le> length v"
proof -
  from assms obtain month v1 where g1: "getnum v True = Some (month, v1)"
    by (auto simp: Parse_def split: option.splits)
  with assms have mo: "\<not> (month \<le> 0 \<or> 12 < month)" by (auto simp: Parse_def split: if_splits)
  from assms g1 mo obtain v2 where k1: "skip_lit v1 (CHR ''-'') = Some v2"
    by (auto simp: Parse_def split: option.splits)
  from assms g1 mo k1 obtain day v3 where g2: "getnum v2 True = Some (day, v3)"
    by (auto simp: Parse_def split: option.splits)
  from assms g1 mo k1 g2 obtain v4 where sp: "skip_space v3 = Some v4"
    by (auto simp: Parse_def split: option.splits)
  from assms g1 mo k1 g2 sp have c: "parse_clock v4 month day = Some t"
    by (simp add: Parse_def)
  from mo have m: "1 \<le> month" "month \<le> 12" by simp_all
  from parse_clock_props [OF c m] have cl: "stamp t" "low v4" "11 \<le> length v4" by simp_all
  then have "v4 \<noteq> []" by auto
  from skip_space_props [OF sp this] obtain ps where ps: "v3 = ps @ v4" "low ps" "1 \<le> length ps"
    by auto
  from getnum_props [OF g1] obtain p1 where p1: "v = p1 @ v1" "low p1" "length p1 = 2" by auto
  from getnum_props [OF g2] obtain p2 where p2: "v2 = p2 @ v3" "low p2" "length p2 = 2" by auto
  have d: "byte (CHR ''-'') < 68" by (simp add: byte_def)
  have v: "v = p1 @ CHR ''-'' # p2 @ ps @ v4"
    using p1(1) p2(1) ps(1) skip_lit_props [OF k1] by simp
  have "low v" unfolding v using p1(2) p2(2) ps(2) cl(2) d by (simp add: low_append low_Cons)
  moreover have "17 \<le> length v" unfolding v using p1(3) p2(3) ps(3) cl(3) by simp
  ultimately show ?thesis using cl(1) by simp
qed

lemma space_bytes_quiet:
  assumes "i < length s" "IsSpace (rune_at s i)" "k < width_at s i"
  shows "quiet (s ! (i + k))"
proof (cases "byte (s ! i) < 128")
  case True
  from ascii_at [OF assms(1) True] assms(2,3) have "IsSpace (byte (s ! i))" "k = 0" by simp_all
  then show ?thesis by (auto simp: IsSpace_def quiet_def)
next
  case False
  show ?thesis
  proof (cases "k = 0")
    case True
    with False show ?thesis by (simp add: quiet_def)
  next
    case nz: False
    then have "0 < k" by simp
    from decode_interior [OF this] assms(3) have "continuation (byte (drop i s ! k))"
      by (simp add: width_at_def)
    moreover from assms(1,3) width_at_le [of i s] have "i + k < length s" by simp
    ultimately have "continuation (byte (s ! (i + k)))" by simp
    then show ?thesis by (simp add: continuation_def quiet_def)
  qed
qed

lemma quiet_upto:
  assumes "i < length s" "IsSpace (rune_at s i)" "\<forall>j. a \<le> j \<and> j < i \<longrightarrow> quiet (s ! j)"
  shows "\<forall>j. a \<le> j \<and> j < i + width_at s i \<longrightarrow> quiet (s ! j)"
proof (intro allI impI)
  fix j assume j: "a \<le> j \<and> j < i + width_at s i"
  show "quiet (s ! j)"
  proof (cases "j < i")
    case True
    with j assms(3) show ?thesis by simp
  next
    case False
    then have "j = i + (j - i)" "j - i < width_at s i" using j by arith+
    with space_bytes_quiet [OF assms(1,2), of "j - i"] show ?thesis by simp
  qed
qed

lemma spans_cases:
  obtains "spans = []" | x where "spans = [x]" | x y ys where "spans = x # y # ys"
  by (cases spans; cases "tl spans") auto

lemma inv_space_close:
  assumes e: "e < length s" and sp: "IsSpace (rune_at s e)" and st: "0 \<le> start"
    and inv: "fields_inv s e start spans"
  shows "fields_inv s (e + width_at s e) (- start - 1) (spans @ [(nat start, e)])"
proof (cases spans rule: spans_cases)
  case 1
  with inv st have i: "nat start < e" "\<forall>i<nat start. quiet (s ! i)"
    by (simp_all add: fields_inv_def)
  have "\<forall>j. e \<le> j \<and> j < e + width_at s e \<longrightarrow> quiet (s ! j)"
    by (rule quiet_upto [OF e sp]) auto
  with 1 i st width_at_pos [OF e] show ?thesis by (simp add: fields_inv_def)
next
  case (2 x)
  with inv st have i: "fst x < snd x" "\<forall>i<fst x. quiet (s ! i)" "snd x < nat start"
    "nat start < e" "\<forall>i. snd x \<le> i \<and> i < nat start \<longrightarrow> quiet (s ! i)"
    by (simp_all add: fields_inv_def)
  have "\<forall>i<e. (fst x \<le> i \<and> i < snd x) \<or> (nat start \<le> i \<and> i < e) \<or> quiet (s ! i)"
  proof (intro allI impI)
    fix j assume "j < e"
    consider "j < fst x" | "fst x \<le> j \<and> j < snd x" | "snd x \<le> j \<and> j < nat start"
      | "nat start \<le> j" by arith
    then show "(fst x \<le> j \<and> j < snd x) \<or> (nat start \<le> j \<and> j < e) \<or> quiet (s ! j)"
      using i \<open>j < e\<close> by cases auto
  qed
  with 2 i e show ?thesis by (simp add: fields_inv_def two_spans_def)
next
  case (3 x y ys)
  with inv show ?thesis by (simp add: fields_inv_def)
qed

lemma inv_space_skip:
  assumes e: "e < length s" and sp: "IsSpace (rune_at s e)" and st: "start < 0"
    and inv: "fields_inv s e start spans"
  shows "fields_inv s (e + width_at s e) start spans"
proof (cases spans rule: spans_cases)
  case 1
  with inv st have "\<forall>j. 0 \<le> j \<and> j < e \<longrightarrow> quiet (s ! j)" by (simp add: fields_inv_def)
  from quiet_upto [OF e sp this] 1 st show ?thesis by (simp add: fields_inv_def)
next
  case (2 x)
  with inv st have i: "fst x < snd x" "\<forall>i<fst x. quiet (s ! i)" "snd x < e"
    "\<forall>j. snd x \<le> j \<and> j < e \<longrightarrow> quiet (s ! j)"
    by (simp_all add: fields_inv_def)
  from quiet_upto [OF e sp i(4)] 2 st i show ?thesis by (simp add: fields_inv_def)
next
  case (3 x y ys)
  with inv show ?thesis by (simp add: fields_inv_def)
qed

lemma inv_open:
  assumes e: "e < length s" and st: "start < 0" and inv: "fields_inv s e start spans"
  shows "fields_inv s (e + width_at s e) (int e) spans"
proof (cases spans rule: spans_cases)
  case 1
  with inv st width_at_pos [OF e] show ?thesis by (simp add: fields_inv_def)
next
  case (2 x)
  with inv st width_at_pos [OF e] show ?thesis by (simp add: fields_inv_def)
next
  case (3 x y ys)
  with inv show ?thesis by (simp add: fields_inv_def)
qed

lemma inv_inside:
  assumes e: "e < length s" and st: "0 \<le> start" and inv: "fields_inv s e start spans"
  shows "fields_inv s (e + width_at s e) start spans"
proof (cases spans rule: spans_cases)
  case 1
  with inv st show ?thesis by (simp add: fields_inv_def)
next
  case (2 x)
  with inv st show ?thesis by (simp add: fields_inv_def)
next
  case (3 x y ys)
  with inv show ?thesis by (simp add: fields_inv_def)
qed

lemma inv_end:
  assumes e: "e = length s" and inv: "fields_inv s e start spans"
  shows "fields_ok s (if 0 \<le> start then spans @ [(nat start, length s)] else spans)"
proof (cases spans rule: spans_cases)
  case 1
  then show ?thesis by (simp add: fields_ok_def)
next
  case (2 x)
  show ?thesis
  proof (cases "0 \<le> start")
    case True
    with 2 inv have i: "fst x < snd x" "\<forall>i<fst x. quiet (s ! i)" "snd x < nat start"
      "nat start < e" "\<forall>i. snd x \<le> i \<and> i < nat start \<longrightarrow> quiet (s ! i)"
      by (simp_all add: fields_inv_def)
    have "\<forall>j<length s. (fst x \<le> j \<and> j < snd x) \<or> (nat start \<le> j \<and> j < length s) \<or> quiet (s ! j)"
    proof (intro allI impI)
      fix j assume "j < length s"
      consider "j < fst x" | "fst x \<le> j \<and> j < snd x" | "snd x \<le> j \<and> j < nat start"
        | "nat start \<le> j" by arith
      then show "(fst x \<le> j \<and> j < snd x) \<or> (nat start \<le> j \<and> j < length s) \<or> quiet (s ! j)"
        using i \<open>j < length s\<close> by cases auto
    qed
    with 2 True i e show ?thesis by (simp add: fields_ok_def two_spans_def)
  next
    case False
    with 2 show ?thesis by (simp add: fields_ok_def)
  qed
next
  case (3 x y ys)
  with inv show ?thesis by (simp add: fields_inv_def fields_ok_def)
qed

lemma fields_loop_ok:
  "e \<le> length s \<Longrightarrow> fields_inv s e start spans \<Longrightarrow> fields_ok s (fields_loop s e start spans)"
proof (induction s e start spans rule: fields_loop.induct)
  case (1 s e start spans)
  show ?case
  proof (cases "length s \<le> e")
    case True
    with "1.prems" have e: "e = length s" by simp
    from inv_end [OF e "1.prems"(2)] True show ?thesis
      by (subst fields_loop.simps) simp
  next
    case False
    then have lt: "e < length s" by simp
    then have le: "e + width_at s e \<le> length s" by (simp add: width_at_le)
    show ?thesis
    proof (cases "IsSpace (rune_at s e)")
      case sp: True
      show ?thesis
      proof (cases "0 \<le> start")
        case True
        from "1.IH"(1) [OF False sp True le inv_space_close [OF lt sp True "1.prems"(2)]]
        show ?thesis using False sp True by (subst fields_loop.simps) simp
      next
        case neg: False
        then have st: "start < 0" by simp
        from "1.IH"(2) [OF False sp neg le inv_space_skip [OF lt sp st "1.prems"(2)]]
        show ?thesis using False sp neg by (subst fields_loop.simps) simp
      qed
    next
      case ns: False
      show ?thesis
      proof (cases "start < 0")
        case True
        from "1.IH"(3) [OF False ns True le inv_open [OF lt True "1.prems"(2)]]
        show ?thesis using False ns True by (subst fields_loop.simps) simp
      next
        case pos: False
        then have st: "0 \<le> start" by simp
        from "1.IH"(4) [OF False ns pos le inv_inside [OF lt st "1.prems"(2)]]
        show ?thesis using False ns pos by (subst fields_loop.simps) simp
      qed
    qed
  qed
qed

lemma low_quiet: "low a \<Longrightarrow> c \<in> set a \<Longrightarrow> quiet c"
  by (auto simp: low_def quiet_def)

lemma Fields_quiet_prefix:
  assumes F: "Fields s = a # b # rest" and la: "low a" and lb: "low b"
    and i: "i < length a + length b + 1" "i < length s"
  shows "quiet (s ! i)"
proof -
  let ?R = "fields_loop s 0 (- 1) []"
  let ?sub = "\<lambda>(a, b). take (b - a) (drop a s)"
  have "fields_inv s 0 (- 1) []" by (simp add: fields_inv_def)
  then have ok: "fields_ok s ?R" by (rule fields_loop_ok [rotated]) simp
  from F have m: "map ?sub ?R = a # b # rest" by (simp add: Fields_def)
  then obtain x y ys where R: "?R = x # y # ys"
    by (cases ?R; cases "tl ?R") auto
  with m have a: "a = take (snd x - fst x) (drop (fst x) s)"
    and b: "b = take (snd y - fst y) (drop (fst y) s)"
    by (auto simp: case_prod_beta)
  from ok R have t: "fst x < snd x" "snd x < fst y" "fst y < snd y" "snd y \<le> length s"
    "\<forall>i<snd y. (fst x \<le> i \<and> i < snd x) \<or> (fst y \<le> i \<and> i < snd y) \<or> quiet (s ! i)"
    by (simp_all add: fields_ok_def two_spans_def)
  from t have len: "length a = snd x - fst x" "length b = snd y - fst y"
    by (simp_all add: a b)
  with t i(1) have "i < snd y" by arith
  with t(5) consider "fst x \<le> i \<and> i < snd x" | "fst y \<le> i \<and> i < snd y" | "quiet (s ! i)"
    by blast
  then show ?thesis
  proof cases
    case 1
    then have "i - fst x < length a" using len by arith
    then have "a ! (i - fst x) \<in> set a" by simp
    moreover have "a ! (i - fst x) = s ! i"
    proof -
      from 1 have k: "i - fst x < snd x - fst x" "fst x + (i - fst x) = i" by arith+
      from 1 t have "fst x + (i - fst x) < length s" by arith
      with k show ?thesis unfolding a by (simp only: nth_take nth_drop)
    qed
    ultimately show ?thesis using low_quiet [OF la] by metis
  next
    case 2
    then have "i - fst y < length b" using len by arith
    then have "b ! (i - fst y) \<in> set b" by simp
    moreover have "b ! (i - fst y) = s ! i"
    proof -
      from 2 have k: "i - fst y < snd y - fst y" "fst y + (i - fst y) = i" by arith+
      from 2 t have "fst y + (i - fst y) < length s" by arith
      with k show ?thesis unfolding b by (simp only: nth_take nth_drop)
    qed
    ultimately show ?thesis using low_quiet [OF lb] by metis
  next
    case 3
    then show ?thesis .
  qed
qed

lemma parseTimestamp_props:
  assumes "parseTimestamp line = Some t"
  shows "stamp t" "\<And>i. i < 17 \<Longrightarrow> i < length line \<Longrightarrow> quiet (line ! i)"
proof -
  from assms have l: "\<not> length (Fields line) < 2"
    and P: "Parse (Fields line ! 0 @ '' '' @ Fields line ! 1) = Some t"
    by (auto simp: parseTimestamp_def Let_def split: if_splits)
  from l obtain a b rest where F: "Fields line = a # b # rest"
    by (cases "Fields line"; cases "tl (Fields line)") auto
  from P F have P': "Parse (a @ '' '' @ b) = Some t" by simp
  from Parse_props [OF P'] have p: "stamp t" "low a" "low b" "16 \<le> length a + length b"
    by (simp_all add: low_append low_Cons)
  from p(1) show "stamp t" .
  show "quiet (line ! i)" if "i < 17" "i < length line" for i
    using Fields_quiet_prefix [OF F p(2,3) _ that(2)] that(1) p(4) by simp
qed







lemma state_stamp_preserved:
  assumes "lastTime = 0 \<or> stamp lastTime"
    and "printColoredLog seconds paint line lastTag lastTime lastOther opts
           = Inr (out, (tg, lt, lo))"
  shows "lt = 0 \<or> stamp lt"
proof -
  obtain parts where f: "findFieldIndices line 6 = Inr parts"
    by (simp add: findFieldIndices_def)
  show ?thesis
  proof (cases "length parts < 6")
    case True
    from printColoredLog_short [OF f True] assms show ?thesis by simp
  next
    case n: False
    show ?thesis
    proof (cases "LogLevelColors [line ! (parts ! 4)] = None
         \<or> IndexByte (drop (parts ! 5) line) (CHR '':'') = None
         \<or> parseTimestamp line = None")
      case True
      from printColoredLog_failure [OF f n True] assms show ?thesis by simp
    next
      case False
      then obtain colorFunc k t where ok: "LogLevelColors [line ! (parts ! 4)] = Some colorFunc"
        "IndexByte (drop (parts ! 5) line) (CHR '':'') = Some k" "parseTimestamp line = Some t"
        by auto
      from parseTimestamp_props(1) [OF ok(3)] have st: "stamp t" .
      define dedup where "dedup = (lastTag = TrimSpace (take k (drop (parts ! 5) line))
          \<and> seconds (Sub t lastTime) < seconds (MaxDelta opts))"
      define metadata where "metadata = (if dedup
          then Sprintf_pad (parts ! 4) (''+'' @ Duration_String (Sub t lastTime))
          else take (parts ! 4) line)"
      note eq = printColoredLog_parsed [where seconds = seconds and lastTag = lastTag
          and lastTime = lastTime and opts = opts and paint = paint and lastOther = lastOther,
          OF f n ok refl refl refl refl dedup_def metadata_def]
      show ?thesis
      proof (cases "k + parts ! 5 + 2 \<le> length line")
        case True
        with eq assms(2) have "lt = (if dedup then lastTime else t)" by simp
        with st assms(1) show ?thesis by (cases dedup) simp_all
      next
        case False
        with eq assms(2) show ?thesis by simp
      qed
    qed
  qed
qed













end
